theory Spec2Isabelle
  imports
    Complex_Main
    "HOL-Library.Sublist"
    "HOL-Library.AList"
    "HOL-Library.Multiset"
    "HOL-Library.Char_ord"
    "HOL-Library.List_Lexorder"
    "HOL-Library.Log_Nat"
begin

section \<open>Python values\<close>

text \<open>
  The tools exchange JSON documents and the agent keeps Python dictionaries.
  A JSON value is modelled by the datatype below; a dictionary is an association
  list with pairwise distinct keys, in insertion order. Every tool returns
  \<^verbatim>\<open>json.dumps(...)\<close> of a dictionary and the agent reads it back with
  \<^verbatim>\<open>json.loads\<close>, so a tool's result is modelled by the JSON value itself.
\<close>

datatype json =
    JNull
  | JBool bool
  | JInt int
  | JStr string
  | JList "json list"
  | JObj "(string \<times> json) list"

datatype py_error = ZeroDivisionError | TypeError | AttributeError

type_synonym datetime = int
  \<comment> \<open>a naive \<^verbatim>\<open>datetime\<close>, in microseconds since 1970-01-01 00:00\<close>

text \<open>\<^verbatim>\<open>d.get(k)\<close> on a dictionary: the value, or \<^verbatim>\<open>None\<close>.\<close>

definition dict_get :: "(string \<times> json) list \<Rightarrow> string \<Rightarrow> json" where
  "dict_get d k = (case map_of d k of None \<Rightarrow> JNull | Some v \<Rightarrow> v)"

text \<open>\<^verbatim>\<open>d.get(k, default)\<close>.\<close>

definition dict_get_default :: "(string \<times> json) list \<Rightarrow> string \<Rightarrow> json \<Rightarrow> json" where
  "dict_get_default d k dflt = (case map_of d k of None \<Rightarrow> dflt | Some v \<Rightarrow> v)"

text \<open>Reading a key of a tool's result, when the result is a dictionary.\<close>

definition obj_get :: "json \<Rightarrow> string \<Rightarrow> json option" where
  "obj_get j k = (case j of JObj d \<Rightarrow> map_of d k | _ \<Rightarrow> None)"

text \<open>\<^verbatim>\<open>str(n)\<close> for an integer, as the f-strings of the tools print it.\<close>

fun str_nat :: "nat \<Rightarrow> string" where
  "str_nat n =
     (if n < 10 then [char_of (48 + n)]
      else str_nat (n div 10) @ [char_of (48 + n mod 10)])"

declare str_nat.simps [simp del]

definition str_int :: "int \<Rightarrow> string" where
  "str_int i = (if i < 0 then CHR ''-'' # str_nat (nat (- i)) else str_nat (nat i))"

text \<open>
  \<^verbatim>\<open>s.lower()\<close>, on ASCII letters (characters of the model are bytes; the case
  mapping of other scripts is outside the model).
\<close>

definition lower_char :: "char \<Rightarrow> char" where
  "lower_char c =
     (case map_of (zip ''ABCDEFGHIJKLMNOPQRSTUVWXYZ'' ''abcdefghijklmnopqrstuvwxyz'') c of
        None \<Rightarrow> c
      | Some d \<Rightarrow> d)"

definition lower :: "string \<Rightarrow> string" where
  "lower s = map lower_char s"

text \<open>
  \<^verbatim>\<open>xs[start:end]\<close>: a negative index counts from the end, and both indices
  are clipped to the list.
\<close>

definition slice_index :: "nat \<Rightarrow> int \<Rightarrow> nat" where
  "slice_index n i = (if i < 0 then nat (max (i + int n) 0) else min (nat i) n)"

definition py_slice :: "'a list \<Rightarrow> int \<Rightarrow> int \<Rightarrow> 'a list" where
  "py_slice xs start_idx end_idx =
     (let s = slice_index (length xs) start_idx;
          e = slice_index (length xs) end_idx
      in take (e - s) (drop s xs))"

subsection \<open>Floating-point division\<close>

text \<open>
  A Python \<^verbatim>\<open>float\<close> is a binary number with 53 significant bits, and a
  division that yields one is the exact quotient rounded to the nearest such
  number, a tie going to the even significand. \<open>round_double\<close> is this
  rounding on the rationals: \<open>binade x\<close> is the exponent \<open>e\<close> with
  \<open>2 powi e \<le> x < 2 powi (e + 1)\<close>, so that the representable numbers around
  \<open>x\<close> are the multiples of \<open>2 powi (e - 52)\<close>. The range of the exponent is not
  bounded in the model; the quotients of this program are far from both ends of
  the range of a \<^verbatim>\<open>float\<close>.
\<close>

definition binade :: "rat \<Rightarrow> int" where
  "binade x =
     (case quotient_of x of
        (n, d) \<Rightarrow>
          (let e0 = bitlen n - bitlen d
           in if 2 powi e0 \<le> x then e0 else e0 - 1))"

definition round_half_even :: "rat \<Rightarrow> int" where
  "round_half_even y =
     (let f = \<lfloor>y\<rfloor>; r = y - of_int f
      in if r < 1 / 2 then f
         else if 1 / 2 < r then f + 1
         else if even f then f else f + 1)"

definition round_double :: "rat \<Rightarrow> rat" where
  "round_double x =
     (if x = 0 then 0
      else
        (let a = \<bar>x\<bar>;
             q = 2 powi (binade a - 52)
         in sgn x * (of_int (round_half_even (a / q)) * q)))"

section \<open>The record store (src/types.py, src/tools.py)\<close>

datatype quality_level = Excellent | Good | Poor | Blurry

fun quality_str :: "quality_level \<Rightarrow> string" where
  "quality_str Excellent = ''excellent''"
| "quality_str Good = ''good''"
| "quality_str Poor = ''poor''"
| "quality_str Blurry = ''blurry''"

text \<open>
  \<^verbatim>\<open>ImageMetadata\<close>. The fields \<^verbatim>\<open>id\<close> and \<^verbatim>\<open>size\<close> are
  \<open>image_id\<close> and \<open>image_size\<close> here. The quality is one of four literals or
  absent; \<open>quality_str\<close> gives the literal that the code compares.
\<close>

record ImageMetadata =
  image_id :: string
  filename :: string
  path :: string
  uploaded_at :: datetime
  captured_at :: "datetime option"
  location :: "string option"
  tags :: "string list"
  relations :: "string list"
  quality :: "quality_level option"
  width :: "int option"
  height :: "int option"
  image_size :: "int option"
  metadata :: "(string \<times> json) list"

definition SAMPLE_IMAGES :: "ImageMetadata list" where
  "SAMPLE_IMAGES =
   [ \<lparr> image_id = ''img_001'', filename = ''beach_sunset.jpg'',
       path = ''/gallery/beach_sunset.jpg'',
       uploaded_at = 1728988200000000, captured_at = Some 1729017900000000,
       location = Some ''Malibu Beach, California'',
       tags = [''beach'', ''sunset'', ''landscape'', ''nature''],
       relations = [''img_002'', ''img_003''], quality = Some Excellent,
       width = Some 4000, height = Some 3000, image_size = Some 2500000, metadata = [] \<rparr>,
     \<lparr> image_id = ''img_002'', filename = ''beach_people.jpg'',
       path = ''/gallery/beach_people.jpg'',
       uploaded_at = 1728988320000000, captured_at = Some 1729018200000000,
       location = Some ''Malibu Beach, California'',
       tags = [''beach'', ''people'', ''group photo''],
       relations = [''img_001'', ''img_003''], quality = Some Good,
       width = Some 4000, height = Some 3000, image_size = Some 2300000, metadata = [] \<rparr>,
     \<lparr> image_id = ''img_003'', filename = ''beach_blurry.jpg'',
       path = ''/gallery/beach_blurry.jpg'',
       uploaded_at = 1728988500000000, captured_at = Some 1729018800000000,
       location = Some ''Malibu Beach, California'',
       tags = [''beach'', ''blurry''],
       relations = [''img_001'', ''img_002''], quality = Some Blurry,
       width = Some 4000, height = Some 3000, image_size = Some 2100000, metadata = [] \<rparr>,
     \<lparr> image_id = ''img_004'', filename = ''mountain_hike.jpg'',
       path = ''/gallery/mountain_hike.jpg'',
       uploaded_at = 1726841700000000, captured_at = Some 1726846200000000,
       location = Some ''Rocky Mountains, Colorado'',
       tags = [''mountain'', ''hiking'', ''landscape''],
       relations = [''img_005''], quality = Some Excellent,
       width = Some 3840, height = Some 2160, image_size = Some 1800000, metadata = [] \<rparr>,
     \<lparr> image_id = ''img_005'', filename = ''mountain_selfie.jpg'',
       path = ''/gallery/mountain_selfie.jpg'',
       uploaded_at = 1726842000000000, captured_at = Some 1726847100000000,
       location = Some ''Rocky Mountains, Colorado'',
       tags = [''mountain'', ''selfie'', ''people''],
       relations = [''img_004''], quality = Some Good,
       width = Some 3840, height = Some 2160, image_size = Some 1600000, metadata = [] \<rparr>,
     \<lparr> image_id = ''img_006'', filename = ''city_lights.jpg'',
       path = ''/gallery/city_lights.jpg'',
       uploaded_at = 1723322700000000, captured_at = Some 1723329000000000,
       location = Some ''New York City, New York'',
       tags = [''city'', ''night'', ''lights'', ''skyline''],
       relations = [], quality = Some Excellent,
       width = Some 5120, height = Some 3200, image_size = Some 3100000, metadata = [] \<rparr> ]"

section \<open>The tools (src/tools_optimized.py)\<close>

text \<open>
  Every tool reads the module-level list \<^verbatim>\<open>SAMPLE_IMAGES\<close>; \<^verbatim>\<open>tag_images\<close>
  also mutates the records in it. The list is therefore a parameter \<open>store\<close> of each
  tool, and a tool that writes returns the new store beside its result.
\<close>

definition opt_str :: "string option \<Rightarrow> json" where
  "opt_str s = (case s of None \<Rightarrow> JNull | Some t \<Rightarrow> JStr t)"

definition opt_int :: "int option \<Rightarrow> json" where
  "opt_int s = (case s of None \<Rightarrow> JNull | Some t \<Rightarrow> JInt t)"

definition opt_quality :: "quality_level option \<Rightarrow> json" where
  "opt_quality s = (case s of None \<Rightarrow> JNull | Some t \<Rightarrow> JStr (quality_str t))"

definition create_image_summary :: "ImageMetadata \<Rightarrow> json" where
  "create_image_summary img =
     JObj [ (''id'', JStr (image_id img)),
            (''filename'', JStr (filename img)),
            (''location'', opt_str (location img)),
            (''tags'', JList (map JStr (take 5 (tags img)))),
            (''quality'', opt_quality (quality img)) ]"

text \<open>
  \<^verbatim>\<open>image.model_dump()\<close>: every field under its name; a datetime is shown by
  its count of microseconds.
\<close>

definition create_full_image_dict :: "ImageMetadata \<Rightarrow> json" where
  "create_full_image_dict img =
     JObj [ (''id'', JStr (image_id img)),
            (''filename'', JStr (filename img)),
            (''path'', JStr (path img)),
            (''uploaded_at'', JInt (uploaded_at img)),
            (''captured_at'', opt_int (captured_at img)),
            (''location'', opt_str (location img)),
            (''tags'', JList (map JStr (tags img))),
            (''relations'', JList (map JStr (relations img))),
            (''quality'', opt_quality (quality img)),
            (''width'', opt_int (width img)),
            (''height'', opt_int (height img)),
            (''size'', opt_int (image_size img)),
            (''metadata'', JObj (metadata img)) ]"

subsection \<open>\<^verbatim>\<open>filter_low_quality_images\<close>\<close>

definition quality_levels :: "(string \<times> int) list" where
  "quality_levels = [(''excellent'', 4), (''good'', 3), (''poor'', 2), (''blurry'', 1)]"

definition levels_get :: "string \<Rightarrow> int \<Rightarrow> int" where
  "levels_get k dflt = (case map_of quality_levels k of None \<Rightarrow> dflt | Some v \<Rightarrow> v)"

definition threshold_level :: "string \<Rightarrow> int" where
  "threshold_level threshold = levels_get threshold 2"

text \<open>
  The loop's test \<^verbatim>\<open>image.quality and quality_levels.get(image.quality, 0) <= threshold_level\<close>:
  a record without a quality is falsy at the first conjunct.
\<close>

definition is_removed :: "string \<Rightarrow> ImageMetadata \<Rightarrow> bool" where
  "is_removed threshold img =
     (case quality img of
        None \<Rightarrow> False
      | Some q \<Rightarrow> levels_get (quality_str q) 0 \<le> threshold_level threshold)"

text \<open>The loop over the store, with its two accumulators.\<close>

fun quality_partition ::
  "string \<Rightarrow> ImageMetadata list \<Rightarrow> ImageMetadata list \<Rightarrow> ImageMetadata list
     \<Rightarrow> ImageMetadata list \<times> ImageMetadata list" where
  "quality_partition threshold [] removed kept = (removed, kept)"
| "quality_partition threshold (img # rest) removed kept =
     (if is_removed threshold img
      then quality_partition threshold rest (removed @ [img]) kept
      else quality_partition threshold rest removed (kept @ [img]))"

definition filter_removed :: "ImageMetadata list \<Rightarrow> string \<Rightarrow> ImageMetadata list" where
  "filter_removed store threshold = fst (quality_partition threshold store [] [])"

definition filter_kept :: "ImageMetadata list \<Rightarrow> string \<Rightarrow> ImageMetadata list" where
  "filter_kept store threshold = snd (quality_partition threshold store [] [])"

definition filter_low_quality_images :: "ImageMetadata list \<Rightarrow> string \<Rightarrow> json" where
  "filter_low_quality_images store threshold =
     (let removed = filter_removed store threshold;
          kept = filter_kept store threshold;
          removed_summary = map create_image_summary (take 5 removed);
          result_message =
            ''Quality filter analysis: '' @ str_nat (length removed) @ '' images below ''
            @ threshold @ '' quality, '' @ str_nat (length kept)
            @ '' images retained. Showing top '' @ str_nat (length removed_summary)
            @ '' removed.''
      in JObj [ (''success'', JBool True),
                (''message'', JStr result_message),
                (''removed_count'', JInt (int (length removed))),
                (''kept_count'', JInt (int (length kept))),
                (''removed_sample'', JList removed_summary),
                (''criteria'', JStr (''Quality threshold: '' @ threshold)) ])"

subsection \<open>\<^verbatim>\<open>delete_images\<close>\<close>

text \<open>
  The function makes no assignment to the store (its comment: in a real
  implementation this would delete files); the store it returns is the one it
  was given.
\<close>

definition valid_ids :: "ImageMetadata list \<Rightarrow> string list \<Rightarrow> string list" where
  "valid_ids store image_ids =
     filter (\<lambda>img_id. list_ex (\<lambda>img. image_id img = img_id) store) image_ids"

definition delete_images ::
  "ImageMetadata list \<Rightarrow> string list \<Rightarrow> json \<times> ImageMetadata list" where
  "delete_images store image_ids =
     (let vs = valid_ids store image_ids;
          result_message = ''Successfully deleted '' @ str_nat (length vs) @ '' images.''
      in (JObj [ (''success'', JBool True),
                 (''message'', JStr result_message),
                 (''deleted_count'', JInt (int (length vs))),
                 (''deleted_ids'', JList (map JStr vs)) ],
          store))"

subsection \<open>\<^verbatim>\<open>tag_images\<close>\<close>

text \<open>The inner loop: append each tag that the record does not have yet.\<close>

fun add_tags :: "string list \<Rightarrow> string list \<Rightarrow> string list" where
  "add_tags image_tags [] = image_tags"
| "add_tags image_tags (tag # rest) =
     (if tag \<notin> set image_tags then add_tags (image_tags @ [tag]) rest
      else add_tags image_tags rest)"

text \<open>The outer loop: the store after it, and \<^verbatim>\<open>updated_count\<close>.\<close>

fun tag_loop ::
  "string list \<Rightarrow> string list \<Rightarrow> ImageMetadata list \<Rightarrow> ImageMetadata list \<times> nat" where
  "tag_loop image_ids new_tags [] = ([], 0)"
| "tag_loop image_ids new_tags (img # rest) =
     (let (rest', updated_count) = tag_loop image_ids new_tags rest
      in if image_id img \<in> set image_ids
         then (img\<lparr>tags := add_tags (tags img) new_tags\<rparr> # rest', updated_count + 1)
         else (img # rest', updated_count))"

definition tag_images ::
  "ImageMetadata list \<Rightarrow> string list \<Rightarrow> string list \<Rightarrow> json \<times> ImageMetadata list" where
  "tag_images store image_ids new_tags =
     (let (store', updated_count) = tag_loop image_ids new_tags store;
          result_message = ''Successfully added tags to '' @ str_nat updated_count @ '' images.''
      in (JObj [ (''success'', JBool True),
                 (''message'', JStr result_message),
                 (''updated_count'', JInt (int updated_count)),
                 (''tags_added'', JList (map JStr new_tags)),
                 (''image_count'', JInt (int (length image_ids))) ],
          store'))"

subsection \<open>\<^verbatim>\<open>search_images_paginated\<close>\<close>

text \<open>
  Truthiness of the optional arguments: \<^verbatim>\<open>None\<close> and the empty string or list
  are falsy, so the filter they guard is skipped.
\<close>

definition text_match :: "string \<Rightarrow> ImageMetadata \<Rightarrow> bool" where
  "text_match query_lower img =
     (sublist query_lower (lower (filename img))
      \<or> list_ex (\<lambda>tag. sublist query_lower (lower tag)) (tags img)
      \<or> (case location img of
            None \<Rightarrow> False
          | Some l \<Rightarrow> l \<noteq> [] \<and> sublist query_lower (lower l)))"

definition location_rejects :: "string option \<Rightarrow> ImageMetadata \<Rightarrow> bool" where
  "location_rejects location_arg img =
     (case location_arg of
        None \<Rightarrow> False
      | Some l \<Rightarrow>
          l \<noteq> [] \<and>
          (case location img of
             None \<Rightarrow> True
           | Some il \<Rightarrow> il = [] \<or> \<not> sublist (lower l) (lower il)))"

definition tags_reject :: "string list option \<Rightarrow> ImageMetadata \<Rightarrow> bool" where
  "tags_reject tags_arg img =
     (case tags_arg of
        None \<Rightarrow> False
      | Some ts \<Rightarrow> ts \<noteq> [] \<and> \<not> list_ex (\<lambda>tag. tag \<in> set (tags img)) ts)"

definition quality_rejects :: "string option \<Rightarrow> ImageMetadata \<Rightarrow> bool" where
  "quality_rejects quality_arg img =
     (case quality_arg of
        None \<Rightarrow> False
      | Some q \<Rightarrow> q \<noteq> [] \<and> opt_quality (quality img) \<noteq> JStr q)"

text \<open>The loop that collects \<^verbatim>\<open>results\<close>, one \<^verbatim>\<open>continue\<close> per test.\<close>

fun search_loop ::
  "string \<Rightarrow> string option \<Rightarrow> string list option \<Rightarrow> string option
     \<Rightarrow> ImageMetadata list \<Rightarrow> ImageMetadata list \<Rightarrow> ImageMetadata list" where
  "search_loop query_lower location_arg tags_arg quality_arg [] results = results"
| "search_loop query_lower location_arg tags_arg quality_arg (img # rest) results =
     (if \<not> text_match query_lower img
        then search_loop query_lower location_arg tags_arg quality_arg rest results
      else if location_rejects location_arg img
        then search_loop query_lower location_arg tags_arg quality_arg rest results
      else if tags_reject tags_arg img
        then search_loop query_lower location_arg tags_arg quality_arg rest results
      else if quality_rejects quality_arg img
        then search_loop query_lower location_arg tags_arg quality_arg rest results
      else search_loop query_lower location_arg tags_arg quality_arg rest (results @ [img]))"

definition search_results ::
  "ImageMetadata list \<Rightarrow> string \<Rightarrow> string option \<Rightarrow> string list option \<Rightarrow> string option
     \<Rightarrow> ImageMetadata list" where
  "search_results store query_arg location_arg tags_arg quality_arg =
     search_loop (lower query_arg) location_arg tags_arg quality_arg store []"

text \<open>\<^verbatim>\<open>results[start_idx:end_idx]\<close> for a page; \<open>per_page\<close> is the clamped value.\<close>

definition paginated_results :: "'a list \<Rightarrow> int \<Rightarrow> int \<Rightarrow> 'a list" where
  "paginated_results results page per_page =
     (let start_idx = (page - 1) * per_page;
          end_idx = start_idx + per_page
      in py_slice results start_idx end_idx)"

text \<open>
  \<^verbatim>\<open>(total_count + per_page - 1) // per_page\<close>: Python's floor division, which is
  \<open>div\<close> on \<open>int\<close>, and raises on a zero divisor.
\<close>

definition total_pages_of :: "int \<Rightarrow> int \<Rightarrow> py_error + int" where
  "total_pages_of total_count per_page =
     (if per_page = 0 then Inl ZeroDivisionError
      else Inr ((total_count + per_page - 1) div per_page))"

text \<open>The f-string \<^verbatim>\<open>summary_message\<close>.\<close>

definition summary_message :: "int \<Rightarrow> nat \<Rightarrow> int \<Rightarrow> int \<Rightarrow> bool \<Rightarrow> string" where
  "summary_message total_count shown page total_pages has_next =
     ''Found '' @ str_int total_count @ '' total images. ''
     @ ''Showing '' @ str_nat shown @ '' results on page ''
     @ str_int page @ '' of '' @ str_int total_pages @ ''. ''
     @ (if has_next then ''Use page parameter to get more results.''
        else ''No more results.'')"

text \<open>The dictionary \<^verbatim>\<open>full_data\<close>.\<close>

definition full_data_dict ::
  "int \<Rightarrow> int \<Rightarrow> int \<Rightarrow> int \<Rightarrow> bool \<Rightarrow> bool \<Rightarrow> ImageMetadata list
     \<Rightarrow> string \<Rightarrow> string option \<Rightarrow> string list option \<Rightarrow> string option \<Rightarrow> json" where
  "full_data_dict total_count page per_page total_pages has_next has_prev page_results
       query_arg location_arg tags_arg quality_arg =
     JObj [ (''total_count'', JInt total_count),
            (''page'', JInt page),
            (''per_page'', JInt per_page),
            (''total_pages'', JInt total_pages),
            (''has_next'', JBool has_next),
            (''has_prev'', JBool has_prev),
            (''images'', JList (map create_full_image_dict page_results)),
            (''query'',
               JObj [ (''text'', JStr query_arg),
                      (''location'', opt_str location_arg),
                      (''tags'',
                         (case tags_arg of
                            None \<Rightarrow> JNull
                          | Some ts \<Rightarrow> JList (map JStr ts))),
                      (''quality'', opt_str quality_arg) ]) ]"

text \<open>The dictionary that the tool returns.\<close>

definition returned_dict :: "string \<Rightarrow> json list \<Rightarrow> int \<Rightarrow> int \<Rightarrow> int \<Rightarrow> int \<Rightarrow> json" where
  "returned_dict message summary_images page per_page total_count total_pages =
     JObj [ (''success'', JBool True),
            (''message'', JStr message),
            (''summary'', JList summary_images),
            (''pagination'',
               JObj [ (''page'', JInt page),
                      (''per_page'', JInt per_page),
                      (''total'', JInt total_count),
                      (''pages'', JInt total_pages) ]) ]"

text \<open>
  The body of the tool. It builds two dictionaries: \<^verbatim>\<open>full_data\<close>, which no
  statement of the function uses afterwards, and the dictionary it returns.
  \<open>search_body\<close> gives both, \<open>search_images_paginated\<close> the returned one.
\<close>

definition search_body ::
  "ImageMetadata list \<Rightarrow> string \<Rightarrow> string option \<Rightarrow> string list option \<Rightarrow> string option
     \<Rightarrow> int \<Rightarrow> int \<Rightarrow> py_error + (json \<times> json)" where
  "search_body store query_arg location_arg tags_arg quality_arg page per_page_arg =
     (let per_page = min per_page_arg 10;
          results = search_results store query_arg location_arg tags_arg quality_arg;
          total_count = int (length results);
          page_results = paginated_results results page per_page;
          summary_images = map create_image_summary page_results
      in case total_pages_of total_count per_page of
           Inl e \<Rightarrow> Inl e
         | Inr total_pages \<Rightarrow>
             (let has_next = (page < total_pages);
                  has_prev = (page > 1);
                  message =
                    summary_message total_count (length page_results) page total_pages has_next;
                  full_data =
                    full_data_dict total_count page per_page total_pages has_next has_prev
                      page_results query_arg location_arg tags_arg quality_arg;
                  returned =
                    returned_dict message summary_images page per_page total_count total_pages
              in Inr (full_data, returned)))"

definition search_images_paginated ::
  "ImageMetadata list \<Rightarrow> string \<Rightarrow> string option \<Rightarrow> string list option \<Rightarrow> string option
     \<Rightarrow> int \<Rightarrow> int \<Rightarrow> py_error + json" where
  "search_images_paginated store query_arg location_arg tags_arg quality_arg page per_page_arg =
     (case search_body store query_arg location_arg tags_arg quality_arg page per_page_arg of
        Inl e \<Rightarrow> Inl e
      | Inr (full_data, returned) \<Rightarrow> Inr returned)"

section \<open>The result cache (src/agent.py)\<close>

subsection \<open>\<^verbatim>\<open>json.dumps(query_params, sort_keys=True)\<close>\<close>

text \<open>
  The serialiser of the standard library with its default separators and
  \<^verbatim>\<open>ensure_ascii\<close>: the items of every dictionary are written in the order of
  their keys. A character outside the printable ASCII range is written as
  \<^verbatim>\<open>\u00XX\<close> from its byte, which is Python's output for code points below 256.
\<close>

definition hex_digit :: "nat \<Rightarrow> char" where
  "hex_digit n = ''0123456789abcdef'' ! (n mod 16)"

definition escape_char :: "char \<Rightarrow> string" where
  "escape_char c =
     (if c = CHR 0x22 then [CHR 0x5C, CHR 0x22]
      else if c = CHR 0x5C then [CHR 0x5C, CHR 0x5C]
      else if c = CHR 0x08 then [CHR 0x5C, CHR ''b'']
      else if c = CHR 0x0C then [CHR 0x5C, CHR ''f'']
      else if c = CHR 0x0A then [CHR 0x5C, CHR ''n'']
      else if c = CHR 0x0D then [CHR 0x5C, CHR ''r'']
      else if c = CHR 0x09 then [CHR 0x5C, CHR ''t'']
      else if CHR '' '' \<le> c \<and> c \<le> CHR ''~'' then [c]
      else [CHR 0x5C, CHR ''u'', CHR ''0'', CHR ''0'',
            hex_digit (of_char c div 16), hex_digit (of_char c)])"

definition json_quote :: "string \<Rightarrow> string" where
  "json_quote s = CHR 0x22 # concat (map escape_char s) @ [CHR 0x22]"

fun join :: "string \<Rightarrow> string list \<Rightarrow> string" where
  "join sep [] = []"
| "join sep [x] = x"
| "join sep (x # y # ys) = x @ sep @ join sep (y # ys)"

fun json_dumps_sorted :: "json \<Rightarrow> string" where
  "json_dumps_sorted JNull = ''null''"
| "json_dumps_sorted (JBool b) = (if b then ''true'' else ''false'')"
| "json_dumps_sorted (JInt i) = str_int i"
| "json_dumps_sorted (JStr s) = json_quote s"
| "json_dumps_sorted (JList xs) = ''['' @ join '', '' (map json_dumps_sorted xs) @ '']''"
| "json_dumps_sorted (JObj d) =
     ''{'' @ join '', '' (map (\<lambda>(k, v). json_quote k @ '': '' @ json_dumps_sorted v)
                              (sort_key fst d)) @ ''}''"

subsection \<open>The agent's cache\<close>

text \<open>
  A cache entry is the dictionary that \<^verbatim>\<open>_cache_search_results\<close> stores. The
  agent is modelled by the two attributes the cache code reads and writes;
  \<^verbatim>\<open>search_cache\<close> keeps Python's insertion order. The methods drop the leading
  underscore of their names. Each takes the reading \<open>now\<close> of \<^verbatim>\<open>datetime.now()\<close>
  as an argument; a retrieval that checks several entries reads the clock once
  per entry, and the model gives all of these readings the same value.
\<close>

record cache_entry =
  query :: json
  filters :: "(string \<times> json) list"
  full_images :: json
  total_count :: nat
  timestamp :: datetime
  pagination :: json

record GalleryAgent =
  search_cache :: "(string \<times> cache_entry) list"
  cache_ttl_minutes :: int

definition new_agent :: GalleryAgent where
  "new_agent = \<lparr> search_cache = [], cache_ttl_minutes = 30 \<rparr>"

text \<open>\<^verbatim>\<open>len(x)\<close> and \<^verbatim>\<open>for img in x\<close> on a value read from a dictionary.\<close>

definition py_len :: "json \<Rightarrow> py_error + nat" where
  "py_len j =
     (case j of
        JStr s \<Rightarrow> Inr (length s)
      | JList xs \<Rightarrow> Inr (length xs)
      | JObj d \<Rightarrow> Inr (length d)
      | _ \<Rightarrow> Inl TypeError)"

definition py_iter :: "json \<Rightarrow> py_error + json list" where
  "py_iter j =
     (case j of
        JStr s \<Rightarrow> Inr (map (\<lambda>c. JStr [c]) s)
      | JList xs \<Rightarrow> Inr xs
      | JObj d \<Rightarrow> Inr (map (\<lambda>(k, v). JStr k) d)
      | _ \<Rightarrow> Inl TypeError)"

definition cache_key_of :: "(string \<times> json) list \<Rightarrow> string" where
  "cache_key_of query_params = json_dumps_sorted (JObj query_params)"

definition cache_search_results ::
  "GalleryAgent \<Rightarrow> datetime \<Rightarrow> (string \<times> json) list \<Rightarrow> (string \<times> json) list
     \<Rightarrow> py_error + GalleryAgent" where
  "cache_search_results self now query_params result_data =
     (let cache_key = cache_key_of query_params;
          images = dict_get_default result_data ''images'' (JList [])
      in case py_len images of
           Inl e \<Rightarrow> Inl e
         | Inr n \<Rightarrow>
             Inr (self\<lparr>search_cache :=
                    AList.update cache_key
                      \<lparr> query = dict_get query_params ''query'',
                        filters = [ (''location'', dict_get query_params ''location''),
                                    (''tags'', dict_get query_params ''tags''),
                                    (''quality'', dict_get query_params ''quality'') ],
                        full_images = images,
                        total_count = n,
                        timestamp = now,
                        pagination = dict_get_default result_data ''pagination'' (JObj []) \<rparr>
                      (search_cache self)\<rparr>))"

text \<open>
  \<^verbatim>\<open>(datetime.now() - timestamp).total_seconds() / 60 < self.cache_ttl_minutes\<close>.
  The difference of two datetimes is a whole number of microseconds.
  \<^verbatim>\<open>total_seconds()\<close> divides it by \<open>10 ^ 6\<close> into a \<^verbatim>\<open>float\<close>, and the
  division by 60 is a second \<^verbatim>\<open>float\<close> division. The comparison of the result
  with the integer \<^verbatim>\<open>cache_ttl_minutes\<close> is exact.
\<close>

definition elapsed_minutes :: "datetime \<Rightarrow> datetime \<Rightarrow> rat" where
  "elapsed_minutes now ts = round_double (round_double (of_int (now - ts) / 1000000) / 60)"

definition is_cache_valid :: "GalleryAgent \<Rightarrow> datetime \<Rightarrow> datetime \<Rightarrow> bool" where
  "is_cache_valid self now ts \<longleftrightarrow> elapsed_minutes now ts < of_int (cache_ttl_minutes self)"

text \<open>\<^verbatim>\<open>img.get('id')\<close>: only a dictionary has the method.\<close>

definition img_get_id :: "json \<Rightarrow> py_error + json" where
  "img_get_id img = (case img of JObj d \<Rightarrow> Inr (dict_get d ''id'') | _ \<Rightarrow> Inl AttributeError)"

text \<open>The inner and the outer loop of \<^verbatim>\<open>_get_cached_images\<close>.\<close>

fun scan_images :: "string list \<Rightarrow> json list \<Rightarrow> json list \<Rightarrow> py_error + json list" where
  "scan_images image_ids [] cached_images = Inr cached_images"
| "scan_images image_ids (img # rest) cached_images =
     (case img_get_id img of
        Inl e \<Rightarrow> Inl e
      | Inr v \<Rightarrow>
          if v \<in> set (map JStr image_ids)
          then scan_images image_ids rest (cached_images @ [img])
          else scan_images image_ids rest cached_images)"

fun scan_entries ::
  "GalleryAgent \<Rightarrow> datetime \<Rightarrow> string list \<Rightarrow> cache_entry list \<Rightarrow> json list
     \<Rightarrow> py_error + json list" where
  "scan_entries self now image_ids [] cached_images = Inr cached_images"
| "scan_entries self now image_ids (cache_entry # rest) cached_images =
     (if \<not> is_cache_valid self now (timestamp cache_entry)
      then scan_entries self now image_ids rest cached_images
      else case py_iter (full_images cache_entry) of
             Inl e \<Rightarrow> Inl e
           | Inr imgs \<Rightarrow>
               (case scan_images image_ids imgs cached_images of
                  Inl e \<Rightarrow> Inl e
                | Inr cached_images' \<Rightarrow> scan_entries self now image_ids rest cached_images'))"

definition get_cached_images ::
  "GalleryAgent \<Rightarrow> datetime \<Rightarrow> string list \<Rightarrow> py_error + json list" where
  "get_cached_images self now image_ids =
     scan_entries self now image_ids (map snd (search_cache self)) []"

text \<open>\<^verbatim>\<open>max(valid_caches, key=lambda x: x['timestamp'])\<close>: the first of the latest.\<close>

fun max_by_timestamp :: "cache_entry \<Rightarrow> cache_entry list \<Rightarrow> cache_entry" where
  "max_by_timestamp best [] = best"
| "max_by_timestamp best (c # cs) =
     (if timestamp best < timestamp c then max_by_timestamp c cs
      else max_by_timestamp best cs)"

definition get_last_search_results :: "GalleryAgent \<Rightarrow> datetime \<Rightarrow> cache_entry option" where
  "get_last_search_results self now =
     (if search_cache self = [] then None
      else
        (let valid_caches =
               filter (\<lambda>cache. is_cache_valid self now (timestamp cache))
                 (map snd (search_cache self))
         in case valid_caches of
              [] \<Rightarrow> None
            | c # cs \<Rightarrow> Some (max_by_timestamp c cs)))"

subsection \<open>A search call of the agent\<close>

text \<open>
  \<^verbatim>\<open>_call_tools_node\<close> runs \<^verbatim>\<open>tool.invoke(tool_input)\<close>, which binds the
  dictionary \<open>tool_input\<close> to the parameters of the tool by its signature
  (\<^verbatim>\<open>query\<close> is required, \<^verbatim>\<open>page\<close> defaults to 1 and \<^verbatim>\<open>per_page\<close> to 5),
  parses the result and, for \<^verbatim>\<open>search_images_paginated\<close>, passes both to
  \<^verbatim>\<open>_cache_search_results\<close>. An exception of any of these steps is caught by the
  \<^verbatim>\<open>except\<close> clause and the cache is left as it was. \<open>bind_search_args\<close>
  is the binding of an input whose values have the types of the signature;
  what the tool framework binds from any other input is left open, and a run
  of search calls below takes the bound arguments of each call as given.
\<close>

record search_args =
  arg_query :: string
  arg_location :: "string option"
  arg_tags :: "string list option"
  arg_quality :: "string option"
  arg_page :: int
  arg_per_page :: int

definition bind_opt_str :: "(string \<times> json) list \<Rightarrow> string \<Rightarrow> string option option" where
  "bind_opt_str d k =
     (case map_of d k of
        None \<Rightarrow> Some None
      | Some JNull \<Rightarrow> Some None
      | Some (JStr s) \<Rightarrow> Some (Some s)
      | Some _ \<Rightarrow> None)"

definition bind_int :: "(string \<times> json) list \<Rightarrow> string \<Rightarrow> int \<Rightarrow> int option" where
  "bind_int d k dflt =
     (case map_of d k of
        None \<Rightarrow> Some dflt
      | Some (JInt i) \<Rightarrow> Some i
      | Some _ \<Rightarrow> None)"

fun strs_of :: "json list \<Rightarrow> string list option" where
  "strs_of [] = Some []"
| "strs_of (JStr s # rest) = (case strs_of rest of None \<Rightarrow> None | Some ss \<Rightarrow> Some (s # ss))"
| "strs_of (_ # rest) = None"

definition bind_opt_strs :: "(string \<times> json) list \<Rightarrow> string \<Rightarrow> string list option option" where
  "bind_opt_strs d k =
     (case map_of d k of
        None \<Rightarrow> Some None
      | Some JNull \<Rightarrow> Some None
      | Some (JList xs) \<Rightarrow> (case strs_of xs of None \<Rightarrow> None | Some ss \<Rightarrow> Some (Some ss))
      | Some _ \<Rightarrow> None)"

definition bind_search_args :: "(string \<times> json) list \<Rightarrow> search_args option" where
  "bind_search_args tool_input =
     (case map_of tool_input ''query'' of
        Some (JStr q) \<Rightarrow>
          (case (bind_opt_str tool_input ''location'', bind_opt_strs tool_input ''tags'',
                 bind_opt_str tool_input ''quality'', bind_int tool_input ''page'' 1,
                 bind_int tool_input ''per_page'' 5) of
             (Some l, Some t, Some qu, Some p, Some pp) \<Rightarrow>
               Some \<lparr> arg_query = q, arg_location = l, arg_tags = t, arg_quality = qu,
                      arg_page = p, arg_per_page = pp \<rparr>
           | _ \<Rightarrow> None)
      | _ \<Rightarrow> None)"

text \<open>The result of \<^verbatim>\<open>tool.invoke(tool_input)\<close>, when it returns one.\<close>

definition invoke_search :: "ImageMetadata list \<Rightarrow> (string \<times> json) list \<Rightarrow> json option" where
  "invoke_search store tool_input =
     (case bind_search_args tool_input of
        None \<Rightarrow> None
      | Some a \<Rightarrow>
          (case search_images_paginated store (arg_query a) (arg_location a) (arg_tags a)
                  (arg_quality a) (arg_page a) (arg_per_page a) of
             Inl e \<Rightarrow> None
           | Inr result \<Rightarrow> Some result))"

definition call_search_tool ::
  "GalleryAgent \<Rightarrow> ImageMetadata list \<times> datetime \<times> (string \<times> json) list
     \<Rightarrow> GalleryAgent" where
  "call_search_tool self call =
     (case call of (store, now, tool_input) \<Rightarrow>
        (case invoke_search store tool_input of
           Some (JObj result_data) \<Rightarrow>
             (case cache_search_results self now tool_input result_data of
                Inl e \<Rightarrow> self
              | Inr self' \<Rightarrow> self')
         | _ \<Rightarrow> self))"

text \<open>
  The arguments that \<^verbatim>\<open>tool.invoke\<close> binds from \<^verbatim>\<open>tool_input\<close> are decided by the
  tool framework, which validates the input against the signature of the tool
  and may convert a value on the way. \<open>bind_search_args\<close> gives them for an
  input that has the types of the signature. In a run of search calls each
  call therefore carries the outcome of the binding: a call is the store at
  the time of the call, the reading of the clock, the dictionary
  \<^verbatim>\<open>tool_input\<close>, and the bound arguments, or \<open>None\<close> when the framework
  rejects the input. \<open>invoke_bound\<close> is the result of \<^verbatim>\<open>tool.invoke\<close> for bound
  arguments, when it returns one, and \<open>call_search_bound\<close> is the body of the
  \<^verbatim>\<open>try\<close> block of \<^verbatim>\<open>_call_tools_node\<close> for such a call.
\<close>

type_synonym search_call =
  "ImageMetadata list \<times> datetime \<times> (string \<times> json) list \<times> search_args option"

definition invoke_bound :: "ImageMetadata list \<Rightarrow> search_args option \<Rightarrow> json option" where
  "invoke_bound store bound =
     (case bound of
        None \<Rightarrow> None
      | Some a \<Rightarrow>
          (case search_images_paginated store (arg_query a) (arg_location a) (arg_tags a)
                  (arg_quality a) (arg_page a) (arg_per_page a) of
             Inl e \<Rightarrow> None
           | Inr result \<Rightarrow> Some result))"

definition call_search_bound :: "GalleryAgent \<Rightarrow> search_call \<Rightarrow> GalleryAgent" where
  "call_search_bound self call =
     (case call of (store, now, tool_input, bound) \<Rightarrow>
        (case invoke_bound store bound of
           Some (JObj result_data) \<Rightarrow>
             (case cache_search_results self now tool_input result_data of
                Inl e \<Rightarrow> self
              | Inr self' \<Rightarrow> self')
         | _ \<Rightarrow> self))"

text \<open>
  A run of search calls, and the call that an input with the types of the
  signature makes.
\<close>

definition run_searches :: "GalleryAgent \<Rightarrow> search_call list \<Rightarrow> GalleryAgent" where
  "run_searches self calls = foldl call_search_bound self calls"

definition typed_call ::
  "ImageMetadata list \<Rightarrow> datetime \<Rightarrow> (string \<times> json) list \<Rightarrow> search_call" where
  "typed_call store now tool_input = (store, now, tool_input, bind_search_args tool_input)"

section \<open>Notions used in the statements\<close>

text \<open>
  \<open>search_returned\<close> holds of a call when \<^verbatim>\<open>tool.invoke\<close> returned a result
  for it, and \<open>call_input\<close> is its dictionary \<^verbatim>\<open>tool_input\<close>.
\<close>

definition search_returned :: "search_call \<Rightarrow> bool" where
  "search_returned call =
     (case call of (store, now, tool_input, bound) \<Rightarrow> invoke_bound store bound \<noteq> None)"

definition call_input :: "search_call \<Rightarrow> (string \<times> json) list" where
  "call_input call = (case call of (store, now, tool_input, bound) \<Rightarrow> tool_input)"

text \<open>
  The canonical form of a value: every dictionary in it has its items in the
  order of their keys. Two dictionaries of query parameters are the same
  parameter set when their canonical forms are equal. For dictionaries with
  distinct keys whose values contain no dictionary, as the inputs of the
  search tool are, that is equality of the mappings from names to values.
\<close>

fun canonical :: "json \<Rightarrow> json" where
  "canonical (JList xs) = JList (map canonical xs)"
| "canonical (JObj d) = JObj (map (\<lambda>(k, v). (k, canonical v)) (sort_key fst d))"
| "canonical j = j"

fun dict_free :: "json \<Rightarrow> bool" where
  "dict_free (JObj d) = False"
| "dict_free (JList xs) = list_all dict_free xs"
| "dict_free j = True"

definition flat_params :: "(string \<times> json) list \<Rightarrow> bool" where
  "flat_params ps = (distinct (map fst ps) \<and> list_all dict_free (map snd ps))"

definition call_params :: "search_call \<Rightarrow> json" where
  "call_params call = canonical (JObj (call_input call))"

text \<open>
  \<^verbatim>\<open>_get_cached_images\<close> is annotated to work on entries whose
  \<^verbatim>\<open>full_images\<close> is a list of dictionaries. \<open>entry_well_formed\<close> says so of
  an entry, \<open>listed_images\<close> is that list, and \<open>id_requested\<close> is the test
  \<^verbatim>\<open>img.get('id') in image_ids\<close> on a dictionary.
\<close>

definition listed_images :: "cache_entry \<Rightarrow> json list" where
  "listed_images e = (case full_images e of JList xs \<Rightarrow> xs | _ \<Rightarrow> [])"

definition is_dict :: "json \<Rightarrow> bool" where
  "is_dict j = (case j of JObj d \<Rightarrow> True | _ \<Rightarrow> False)"

definition entry_well_formed :: "cache_entry \<Rightarrow> bool" where
  "entry_well_formed e = (case full_images e of JList xs \<Rightarrow> list_all is_dict xs | _ \<Rightarrow> False)"

definition id_requested :: "string list \<Rightarrow> json \<Rightarrow> bool" where
  "id_requested image_ids img =
     (case img of JObj d \<Rightarrow> dict_get d ''id'' \<in> set (map JStr image_ids) | _ \<Rightarrow> False)"

text \<open>
  A cache with two entries that hold the same record: the state after
  \<^verbatim>\<open>_cache_search_results\<close> has stored, one minute apart, two results whose
  \<^verbatim>\<open>images\<close> both list \<^verbatim>\<open>img_001\<close>.
\<close>

definition img_001_dict :: json where
  "img_001_dict = create_full_image_dict (hd SAMPLE_IMAGES)"

definition overlapping_agent :: GalleryAgent where
  "overlapping_agent =
     (case cache_search_results new_agent 0 [(''query'', JStr ''beach'')]
             [(''images'', JList [img_001_dict])] of
        Inl e \<Rightarrow> new_agent
      | Inr a \<Rightarrow>
          (case cache_search_results a 60000000 [(''query'', JStr ''sunset'')]
                  [(''images'', JList [img_001_dict])] of
             Inl e \<Rightarrow> a
           | Inr b \<Rightarrow> b))"


section \<open>Notions used in the proofs about the cache key\<close>

text \<open>
  The characters of a rendered integer, the value of a string of digits, the
  three cases of \<^verbatim>\<open>escape_char\<close>, the characters that can follow a rendered
  value inside a list or a dictionary, and the first character of each kind
  of rendered value.
\<close>

definition is_digit :: "char \<Rightarrow> bool" where
  "is_digit c = (c \<in> set ''0123456789'')"

definition digits_val :: "string \<Rightarrow> nat" where
  "digits_val s = foldl (\<lambda>a c. 10 * a + (of_char c - 48)) 0 s"

definition non_digit_start :: "string \<Rightarrow> bool" where
  "non_digit_start r = (case r of [] \<Rightarrow> True | c # _ \<Rightarrow> \<not> is_digit c)"

definition esc_special :: "char \<Rightarrow> bool" where
  "esc_special c =
     (c \<in> set [CHR 0x22, CHR 0x5C, CHR 0x08, CHR 0x0C, CHR 0x0A, CHR 0x0D, CHR 0x09])"

definition esc_code :: "char \<Rightarrow> char" where
  "esc_code c =
     (if c = CHR 0x22 then CHR 0x22
      else if c = CHR 0x5C then CHR 0x5C
      else if c = CHR 0x08 then CHR ''b''
      else if c = CHR 0x0C then CHR ''f''
      else if c = CHR 0x0A then CHR ''n''
      else if c = CHR 0x0D then CHR ''r''
      else CHR ''t'')"

definition esc_plain :: "char \<Rightarrow> bool" where
  "esc_plain c = (\<not> esc_special c \<and> CHR '' '' \<le> c \<and> c \<le> CHR ''~'')"

definition key_delim :: "string \<Rightarrow> bool" where
  "key_delim r =
     (case r of [] \<Rightarrow> True | c # _ \<Rightarrow> c = CHR '','' \<or> c = CHR '']'' \<or> c = CHR ''}'')"

fun lead_char :: "json \<Rightarrow> char \<Rightarrow> bool" where
  "lead_char JNull c = (c = CHR ''n'')"
| "lead_char (JBool b) c = (c = CHR ''t'' \<or> c = CHR ''f'')"
| "lead_char (JInt i) c = (c = CHR ''-'' \<or> is_digit c)"
| "lead_char (JStr s) c = (c = CHR 0x22)"
| "lead_char (JList xs) c = (c = CHR ''['')"
| "lead_char (JObj d) c = (c = CHR ''{'')"

definition items_rest :: "('a \<Rightarrow> string) \<Rightarrow> char \<Rightarrow> 'a list \<Rightarrow> string \<Rightarrow> string" where
  "items_rest f cl t r =
     (if t = [] then cl # r else '', '' @ join '', '' (map f t) @ cl # r)"


section \<open>The rank table of the specification\<close>

text \<open>
  The specification ranks the qualities excellent = 4, good = 3, poor = 2,
  blurry = 1. The table is written down here to be compared with the
  dictionary \<^verbatim>\<open>quality_levels\<close> of the code.
\<close>

fun spec_rank :: "quality_level \<Rightarrow> int" where
  "spec_rank Excellent = 4"
| "spec_rank Good = 3"
| "spec_rank Poor = 2"
| "spec_rank Blurry = 1"


section \<open>Properties of the tools\<close>

subsection \<open>The loops in closed form\<close>

lemma quality_partition_eq:
  "quality_partition t xs r k =
     (r @ filter (is_removed t) xs, k @ filter (\<lambda>i. \<not> is_removed t i) xs)"
  by (induction xs arbitrary: r k) simp_all

lemma filter_removed_eq: "filter_removed store t = filter (is_removed t) store"
  by (simp add: filter_removed_def quality_partition_eq)

lemma filter_kept_eq: "filter_kept store t = filter (\<lambda>i. \<not> is_removed t i) store"
  by (simp add: filter_kept_def quality_partition_eq)

lemma levels_get_known:
  "levels_get ''excellent'' d = 4" "levels_get ''good'' d = 3"
  "levels_get ''poor'' d = 2" "levels_get ''blurry'' d = 1"
  by (simp_all add: levels_get_def quality_levels_def)

lemma levels_get_unknown:
  "k \<notin> {''excellent'', ''good'', ''poor'', ''blurry''} \<Longrightarrow> levels_get k d = d"
  by (simp add: levels_get_def quality_levels_def)

lemma valid_ids_eq:
  "valid_ids store ids = filter (\<lambda>i. i \<in> image_id ` set store) ids"
  unfolding valid_ids_def list_ex_iff by (rule filter_cong) auto

lemma tag_loop_eq:
  "tag_loop ids new store =
     (map (\<lambda>img. if image_id img \<in> set ids then img\<lparr>tags := add_tags (tags img) new\<rparr> else img) store,
      length (filter (\<lambda>img. image_id img \<in> set ids) store))"
  by (induction store) simp_all

lemma add_tags_appends:
  "\<exists>added. add_tags ts new = ts @ added \<and> distinct added \<and> set added = set new - set ts"
proof (induction new arbitrary: ts)
  case Nil
  show ?case by simp
next
  case (Cons tag rest)
  show ?case
  proof (cases "tag \<in> set ts")
    case True
    from Cons.IH [of ts] obtain added where a:
      "add_tags ts rest = ts @ added" "distinct added" "set added = set rest - set ts"
      by (elim exE conjE)
    have "add_tags ts (tag # rest) = ts @ added" using True a(1) by simp
    moreover have "set added = set (tag # rest) - set ts"
      unfolding a(3) using True by (simp add: insert_Diff_if)
    ultimately have
      "add_tags ts (tag # rest) = ts @ added \<and> distinct added
       \<and> set added = set (tag # rest) - set ts"
      using a(2) by simp
    then show ?thesis by (rule exI)
  next
    case False
    from Cons.IH [of "ts @ [tag]"] obtain added where a:
      "add_tags (ts @ [tag]) rest = (ts @ [tag]) @ added" "distinct added"
      "set added = set rest - set (ts @ [tag])"
      by (elim exE conjE)
    have 1: "add_tags ts (tag # rest) = ts @ (tag # added)" using False a(1) by simp
    have "tag \<notin> set added" unfolding a(3) by simp
    hence 2: "distinct (tag # added)" using a(2) by simp
    have 3: "set (tag # added) = set (tag # rest) - set ts"
      unfolding list.set a(3) using False by auto
    from 1 2 3 have
      "add_tags ts (tag # rest) = ts @ (tag # added) \<and> distinct (tag # added)
       \<and> set (tag # added) = set (tag # rest) - set ts"
      by (intro conjI)
    then show ?thesis by (rule exI)
  qed
qed


lemma set_add_tags: "set (add_tags ts new) = set ts \<union> set new"
proof -
  obtain added where "add_tags ts new = ts @ added" "set added = set new - set ts"
    using add_tags_appends [of ts new] by (elim exE conjE)
  then show ?thesis by (simp add: Un_Diff_cancel)
qed

lemma add_tags_present: "set new \<subseteq> set ts \<Longrightarrow> add_tags ts new = ts"
  by (induction new arbitrary: ts) simp_all

lemma add_tags_twice: "add_tags (add_tags ts new) new = add_tags ts new"
  by (rule add_tags_present) (simp add: set_add_tags)

lemma tag_store_twice:
  "fst (tag_loop ids new (fst (tag_loop ids new store))) = fst (tag_loop ids new store)"
  by (simp add: tag_loop_eq add_tags_twice)

lemma tag_count_twice:
  "snd (tag_loop ids new (fst (tag_loop ids new store))) = snd (tag_loop ids new store)"
  by (simp add: tag_loop_eq filter_map o_def)

lemma levels_get_quality_str: "levels_get (quality_str q) d = spec_rank q"
  by (cases q) (simp_all add: levels_get_known)

lemma is_removed_iff:
  "is_removed threshold img \<longleftrightarrow>
     (\<exists>q. quality img = Some q \<and> spec_rank q \<le> threshold_level threshold)"
  by (simp add: is_removed_def levels_get_quality_str split: option.split)

subsection \<open>Quality filter\<close>

text \<open>
  C8. For every threshold the quality filter splits the store in two: no record
  is both removed and kept, every record is one of the two (counted with
  multiplicity), and a record is removed exactly when it has a quality whose rank
  in the table excellent = 4, good = 3, poor = 2, blurry = 1 is at most the rank
  of the threshold. A record without a quality is kept. The counts of the result
  are the lengths of the two parts.
\<close>

theorem quality_filter_partitions:
  "set (filter_removed store threshold) \<inter> set (filter_kept store threshold) = {}
   \<and> set (filter_removed store threshold) \<union> set (filter_kept store threshold) = set store
   \<and> mset (filter_removed store threshold) + mset (filter_kept store threshold) = mset store
   \<and> filter_removed store threshold =
         filter (\<lambda>img. \<exists>q. quality img = Some q \<and> spec_rank q \<le> threshold_level threshold) store
   \<and> filter_kept store threshold =
         filter (\<lambda>img. \<not> (\<exists>q. quality img = Some q \<and> spec_rank q \<le> threshold_level threshold)) store
   \<and> threshold_level ''excellent'' = spec_rank Excellent
   \<and> threshold_level ''good'' = spec_rank Good
   \<and> threshold_level ''poor'' = spec_rank Poor
   \<and> threshold_level ''blurry'' = spec_rank Blurry
   \<and> obj_get (filter_low_quality_images store threshold) ''success'' = Some (JBool True)
   \<and> obj_get (filter_low_quality_images store threshold) ''removed_count''
         = Some (JInt (int (length (filter_removed store threshold))))
   \<and> obj_get (filter_low_quality_images store threshold) ''kept_count''
         = Some (JInt (int (length (filter_kept store threshold))))"
proof -
  have disj: "set (filter_removed store threshold) \<inter> set (filter_kept store threshold) = {}"
    unfolding filter_removed_eq filter_kept_eq by auto
  have un: "set (filter_removed store threshold) \<union> set (filter_kept store threshold) = set store"
    unfolding filter_removed_eq filter_kept_eq by auto
  have ms: "mset (filter_removed store threshold) + mset (filter_kept store threshold) = mset store"
    unfolding filter_removed_eq filter_kept_eq by simp
  have rem: "filter_removed store threshold =
         filter (\<lambda>img. \<exists>q. quality img = Some q \<and> spec_rank q \<le> threshold_level threshold) store"
    unfolding filter_removed_eq by (rule filter_cong) (simp_all add: is_removed_iff)
  have kep: "filter_kept store threshold =
         filter (\<lambda>img. \<not> (\<exists>q. quality img = Some q \<and> spec_rank q \<le> threshold_level threshold)) store"
    unfolding filter_kept_eq by (rule filter_cong) (simp_all add: is_removed_iff)
  have lv: "threshold_level ''excellent'' = spec_rank Excellent"
    "threshold_level ''good'' = spec_rank Good"
    "threshold_level ''poor'' = spec_rank Poor"
    "threshold_level ''blurry'' = spec_rank Blurry"
    by (simp_all add: threshold_level_def levels_get_known)
  have resp: "obj_get (filter_low_quality_images store threshold) ''success'' = Some (JBool True)"
    "obj_get (filter_low_quality_images store threshold) ''removed_count''
         = Some (JInt (int (length (filter_removed store threshold))))"
    "obj_get (filter_low_quality_images store threshold) ''kept_count''
         = Some (JInt (int (length (filter_kept store threshold))))"
    by (simp_all add: filter_low_quality_images_def obj_get_def Let_def)
  from disj un ms rem kep lv resp show ?thesis by (intro conjI)
qed

text \<open>
  The seeded gallery at threshold \<^verbatim>\<open>poor\<close>: only \<^verbatim>\<open>img_003\<close> is removed.
\<close>

lemma quality_filter_scenario:
  "map image_id (filter_removed SAMPLE_IMAGES ''poor'') = [''img_003'']
   \<and> map image_id (filter_kept SAMPLE_IMAGES ''poor'')
       = [''img_001'', ''img_002'', ''img_004'', ''img_005'', ''img_006'']"
  by (simp add: filter_removed_eq filter_kept_eq SAMPLE_IMAGES_def is_removed_def
      levels_get_known threshold_level_def)

text \<open>
  C10. A threshold that is none of excellent, good, poor and blurry does not make
  the quality filter fail: its level is 2, the level of \<^verbatim>\<open>poor\<close>. The records
  removed are those with a quality of rank at most 2 and the records kept are
  the others, which are the two parts for the threshold \<^verbatim>\<open>poor\<close>; the result
  has \<^verbatim>\<open>success\<close> true, the lengths of these two parts as its counts and the
  summaries of the first five removed records as its sample.
\<close>

theorem unknown_threshold_is_poor:
  assumes "threshold \<notin> {''excellent'', ''good'', ''poor'', ''blurry''}"
  shows "threshold_level threshold = 2
   \<and> filter_removed store threshold = filter_removed store ''poor''
   \<and> filter_kept store threshold = filter_kept store ''poor''
   \<and> filter_removed store threshold
       = filter (\<lambda>img. \<exists>q. quality img = Some q \<and> spec_rank q \<le> 2) store
   \<and> filter_kept store threshold
       = filter (\<lambda>img. \<not> (\<exists>q. quality img = Some q \<and> spec_rank q \<le> 2)) store
   \<and> obj_get (filter_low_quality_images store threshold) ''success'' = Some (JBool True)
   \<and> obj_get (filter_low_quality_images store threshold) ''removed_count''
       = Some (JInt (int (length (filter_removed store threshold))))
   \<and> obj_get (filter_low_quality_images store threshold) ''kept_count''
       = Some (JInt (int (length (filter_kept store threshold))))
   \<and> obj_get (filter_low_quality_images store threshold) ''removed_sample''
       = Some (JList (map create_image_summary (take 5 (filter_removed store threshold))))
   \<and> obj_get (filter_low_quality_images store threshold) ''removed_count''
        = obj_get (filter_low_quality_images store ''poor'') ''removed_count''
   \<and> obj_get (filter_low_quality_images store threshold) ''kept_count''
        = obj_get (filter_low_quality_images store ''poor'') ''kept_count''
   \<and> obj_get (filter_low_quality_images store threshold) ''removed_sample''
        = obj_get (filter_low_quality_images store ''poor'') ''removed_sample''"
proof -
  have lv: "threshold_level threshold = 2"
    using assms by (simp add: threshold_level_def levels_get_unknown)
  have lp: "threshold_level ''poor'' = 2"
    by (simp add: threshold_level_def levels_get_known)
  have same: "is_removed threshold = is_removed ''poor''"
    by (rule ext) (simp add: is_removed_def lv lp split: option.split)
  have rem: "filter_removed store threshold = filter_removed store ''poor''"
    by (simp add: filter_removed_eq same)
  have kep: "filter_kept store threshold = filter_kept store ''poor''"
    by (simp add: filter_kept_eq same)
  have rem2: "filter_removed store threshold
       = filter (\<lambda>img. \<exists>q. quality img = Some q \<and> spec_rank q \<le> 2) store"
    unfolding filter_removed_eq by (rule filter_cong) (simp_all add: is_removed_iff lv)
  have kep2: "filter_kept store threshold
       = filter (\<lambda>img. \<not> (\<exists>q. quality img = Some q \<and> spec_rank q \<le> 2)) store"
    unfolding filter_kept_eq by (rule filter_cong) (simp_all add: is_removed_iff lv)
  have val: "obj_get (filter_low_quality_images s t) ''success'' = Some (JBool True)"
    "obj_get (filter_low_quality_images s t) ''removed_count''
       = Some (JInt (int (length (filter_removed s t))))"
    "obj_get (filter_low_quality_images s t) ''kept_count''
       = Some (JInt (int (length (filter_kept s t))))"
    "obj_get (filter_low_quality_images s t) ''removed_sample''
       = Some (JList (map create_image_summary (take 5 (filter_removed s t))))" for s t
    by (simp_all add: filter_low_quality_images_def obj_get_def Let_def)
  have resp:
   "obj_get (filter_low_quality_images store threshold) ''removed_count''
        = obj_get (filter_low_quality_images store ''poor'') ''removed_count''"
   "obj_get (filter_low_quality_images store threshold) ''kept_count''
        = obj_get (filter_low_quality_images store ''poor'') ''kept_count''"
   "obj_get (filter_low_quality_images store threshold) ''removed_sample''
        = obj_get (filter_low_quality_images store ''poor'') ''removed_sample''"
    by (simp_all only: val rem kep)
  from lv rem kep rem2 kep2 val [of store threshold] resp show ?thesis by (intro conjI)
qed

text \<open>
  The seeded gallery at the threshold \<^verbatim>\<open>fuzzy\<close>: one record removed, five kept.
\<close>

theorem unknown_threshold_is_poor_witness:
  "''fuzzy'' \<notin> {''excellent'', ''good'', ''poor'', ''blurry''}
   \<and> threshold_level ''fuzzy'' = 2
   \<and> map image_id (filter_removed SAMPLE_IMAGES ''fuzzy'') = [''img_003'']
   \<and> obj_get (filter_low_quality_images SAMPLE_IMAGES ''fuzzy'') ''success'' = Some (JBool True)
   \<and> obj_get (filter_low_quality_images SAMPLE_IMAGES ''fuzzy'') ''removed_count''
       = Some (JInt 1)
   \<and> obj_get (filter_low_quality_images SAMPLE_IMAGES ''fuzzy'') ''kept_count''
       = Some (JInt 5)"
proof -
  have h: "''fuzzy'' \<notin> {''excellent'', ''good'', ''poor'', ''blurry''}" by simp
  have r: "map image_id (filter_removed SAMPLE_IMAGES ''poor'') = [''img_003'']"
    by (simp add: filter_removed_eq SAMPLE_IMAGES_def is_removed_def
      levels_get_known threshold_level_def)
  have k: "length (filter_kept SAMPLE_IMAGES ''poor'') = 5"
    by (simp add: filter_kept_eq SAMPLE_IMAGES_def is_removed_def
      levels_get_known threshold_level_def)
  have "length (map image_id (filter_removed SAMPLE_IMAGES ''poor'')) = 1"
    unfolding r by simp
  then have l: "length (filter_removed SAMPLE_IMAGES ''poor'') = 1" by simp
  note t = unknown_threshold_is_poor [OF h, of SAMPLE_IMAGES]
  from t have e1: "filter_removed SAMPLE_IMAGES ''fuzzy'' = filter_removed SAMPLE_IMAGES ''poor''"
    and e2: "filter_kept SAMPLE_IMAGES ''fuzzy'' = filter_kept SAMPLE_IMAGES ''poor''"
    and lv: "threshold_level ''fuzzy'' = 2"
    and s: "obj_get (filter_low_quality_images SAMPLE_IMAGES ''fuzzy'') ''success''
              = Some (JBool True)"
    and c1: "obj_get (filter_low_quality_images SAMPLE_IMAGES ''fuzzy'') ''removed_count''
       = Some (JInt (int (length (filter_removed SAMPLE_IMAGES ''fuzzy''))))"
    and c2: "obj_get (filter_low_quality_images SAMPLE_IMAGES ''fuzzy'') ''kept_count''
       = Some (JInt (int (length (filter_kept SAMPLE_IMAGES ''fuzzy''))))"
    by blast+
  have m: "map image_id (filter_removed SAMPLE_IMAGES ''fuzzy'') = [''img_003'']"
    unfolding e1 by (rule r)
  have c1': "obj_get (filter_low_quality_images SAMPLE_IMAGES ''fuzzy'') ''removed_count''
       = Some (JInt 1)"
    unfolding c1 e1 l by simp
  have c2': "obj_get (filter_low_quality_images SAMPLE_IMAGES ''fuzzy'') ''kept_count''
       = Some (JInt 5)"
    unfolding c2 e2 k by simp
  from h lv m s c1' c2' show ?thesis by (intro conjI)
qed

subsection \<open>Delete\<close>

text \<open>
  C7, as the code has it. For every list of requested ids, \<^verbatim>\<open>delete_images\<close>
  reports as deleted the requested ids that some record of the store has, in
  the order of the request and as often as the request names them, and drops
  the others without an error; \<^verbatim>\<open>deleted_count\<close> is the length of the reported
  list, which for a request without repetitions is the size of the set of
  requested ids present in the store. The store is left as it was.
\<close>

theorem delete_reports_existing_ids:
  "snd (delete_images store image_ids) = store
   \<and> obj_get (fst (delete_images store image_ids)) ''deleted_ids''
       = Some (JList (map JStr (filter (\<lambda>i. i \<in> image_id ` set store) image_ids)))
   \<and> obj_get (fst (delete_images store image_ids)) ''deleted_count''
       = Some (JInt (int (length (filter (\<lambda>i. i \<in> image_id ` set store) image_ids))))
   \<and> obj_get (fst (delete_images store image_ids)) ''success'' = Some (JBool True)
   \<and> set (valid_ids store image_ids) = set image_ids \<inter> image_id ` set store
   \<and> (distinct image_ids \<longrightarrow>
        length (valid_ids store image_ids) = card (set image_ids \<inter> image_id ` set store))"
proof -
  have frame: "snd (delete_images store image_ids) = store"
    by (simp add: delete_images_def Let_def)
  have resp:
    "obj_get (fst (delete_images store image_ids)) ''deleted_ids''
       = Some (JList (map JStr (filter (\<lambda>i. i \<in> image_id ` set store) image_ids)))"
    "obj_get (fst (delete_images store image_ids)) ''deleted_count''
       = Some (JInt (int (length (filter (\<lambda>i. i \<in> image_id ` set store) image_ids))))"
    "obj_get (fst (delete_images store image_ids)) ''success'' = Some (JBool True)"
    by (simp_all add: delete_images_def Let_def obj_get_def valid_ids_eq)
  have sub: "set (valid_ids store image_ids) = set image_ids \<inter> image_id ` set store"
    unfolding valid_ids_eq by auto
  have cnt: "distinct image_ids \<longrightarrow>
        length (valid_ids store image_ids) = card (set image_ids \<inter> image_id ` set store)"
  proof
    assume d: "distinct image_ids"
    have "distinct (valid_ids store image_ids)"
      unfolding valid_ids_eq using d by simp
    then have "length (valid_ids store image_ids) = card (set (valid_ids store image_ids))"
      by (simp add: distinct_card)
    then show "length (valid_ids store image_ids) = card (set image_ids \<inter> image_id ` set store)"
      by (simp only: sub)
  qed
  from frame resp sub cnt show ?thesis by (intro conjI)
qed

theorem delete_reports_existing_ids_witness:
  "distinct [''img_999'', ''img_003'']
   \<and> length (valid_ids SAMPLE_IMAGES [''img_999'', ''img_003''])
       = card (set [''img_999'', ''img_003''] \<inter> image_id ` set SAMPLE_IMAGES)
   \<and> valid_ids SAMPLE_IMAGES [''img_999'', ''img_003''] = [''img_003'']
   \<and> obj_get (fst (delete_images SAMPLE_IMAGES [''img_999'', ''img_003''])) ''deleted_count''
       = Some (JInt 1)
   \<and> snd (delete_images SAMPLE_IMAGES [''img_999'', ''img_003'']) = SAMPLE_IMAGES"
proof -
  have d: "distinct [''img_999'', ''img_003'']" by simp
  have v: "valid_ids SAMPLE_IMAGES [''img_999'', ''img_003''] = [''img_003'']"
    by (simp add: valid_ids_def SAMPLE_IMAGES_def)
  have c: "obj_get (fst (delete_images SAMPLE_IMAGES [''img_999'', ''img_003''])) ''deleted_count''
       = Some (JInt 1)"
    by (simp add: delete_images_def Let_def obj_get_def v)
  from delete_reports_existing_ids [of SAMPLE_IMAGES "[''img_999'', ''img_003'']"] d
  have "length (valid_ids SAMPLE_IMAGES [''img_999'', ''img_003''])
       = card (set [''img_999'', ''img_003''] \<inter> image_id ` set SAMPLE_IMAGES)"
   and "snd (delete_images SAMPLE_IMAGES [''img_999'', ''img_003'']) = SAMPLE_IMAGES"
    by blast+
  with d v c show ?thesis by (intro conjI)
qed

text \<open>
  C7 as stated fails on a request that names an id twice: the id is reported
  twice and \<^verbatim>\<open>deleted_count\<close> is 2, while one requested id exists in the store.
\<close>

theorem delete_counts_repeated_ids:
  "obj_get (fst (delete_images SAMPLE_IMAGES [''img_003'', ''img_003''])) ''deleted_count''
     = Some (JInt 2)
   \<and> obj_get (fst (delete_images SAMPLE_IMAGES [''img_003'', ''img_003''])) ''deleted_ids''
     = Some (JList [JStr ''img_003'', JStr ''img_003''])
   \<and> card (set [''img_003'', ''img_003''] \<inter> image_id ` set SAMPLE_IMAGES) = 1"
proof -
  have v: "valid_ids SAMPLE_IMAGES [''img_003'', ''img_003''] = [''img_003'', ''img_003'']"
    by (simp add: valid_ids_def SAMPLE_IMAGES_def)
  have a: "obj_get (fst (delete_images SAMPLE_IMAGES [''img_003'', ''img_003''])) ''deleted_count''
     = Some (JInt 2)"
    by (simp add: delete_images_def Let_def obj_get_def v)
  have b: "obj_get (fst (delete_images SAMPLE_IMAGES [''img_003'', ''img_003''])) ''deleted_ids''
     = Some (JList [JStr ''img_003'', JStr ''img_003''])"
    by (simp add: delete_images_def Let_def obj_get_def v)
  have "set [''img_003'', ''img_003''] \<inter> image_id ` set SAMPLE_IMAGES = {''img_003''}"
    by (simp add: SAMPLE_IMAGES_def)
  then have c: "card (set [''img_003'', ''img_003''] \<inter> image_id ` set SAMPLE_IMAGES) = 1"
    by simp
  from a b c show ?thesis by (intro conjI)
qed

subsection \<open>Tag\<close>

text \<open>
  C9. Tagging is idempotent: running \<^verbatim>\<open>tag_images\<close> a second time with the
  same ids and tags changes neither the store nor the result. For one record,
  the tags after the call are the tags before followed by the new tags that were
  not present, each once; so a tag that is present is never appended again and a
  tag list without duplicates stays without duplicates.
\<close>

theorem tag_images_idempotent:
  "snd (tag_images (snd (tag_images store image_ids new_tags)) image_ids new_tags)
     = snd (tag_images store image_ids new_tags)
   \<and> fst (tag_images (snd (tag_images store image_ids new_tags)) image_ids new_tags)
     = fst (tag_images store image_ids new_tags)
   \<and> snd (tag_images store image_ids new_tags)
     = map (\<lambda>img. if image_id img \<in> set image_ids
                    then img\<lparr>tags := add_tags (tags img) new_tags\<rparr> else img) store
   \<and> add_tags (add_tags ts new_tags) new_tags = add_tags ts new_tags
   \<and> (\<exists>added. add_tags ts new_tags = ts @ added \<and> distinct added
          \<and> set added = set new_tags - set ts)
   \<and> (distinct ts \<longrightarrow> distinct (add_tags ts new_tags))"
proof -
  have st: "snd (tag_images s image_ids new_tags) = fst (tag_loop image_ids new_tags s)" for s
    by (simp add: tag_images_def split: prod.split)
  have rs: "fst (tag_images s image_ids new_tags) =
      JObj [ (''success'', JBool True),
             (''message'', JStr (''Successfully added tags to ''
                 @ str_nat (snd (tag_loop image_ids new_tags s)) @ '' images.'')),
             (''updated_count'', JInt (int (snd (tag_loop image_ids new_tags s)))),
             (''tags_added'', JList (map JStr new_tags)),
             (''image_count'', JInt (int (length image_ids))) ]" for s
    by (simp add: tag_images_def split: prod.split)
  have a: "snd (tag_images (snd (tag_images store image_ids new_tags)) image_ids new_tags)
     = snd (tag_images store image_ids new_tags)"
    by (simp only: st tag_store_twice)
  have b: "fst (tag_images (snd (tag_images store image_ids new_tags)) image_ids new_tags)
     = fst (tag_images store image_ids new_tags)"
    by (simp only: rs st tag_count_twice)
  have c: "snd (tag_images store image_ids new_tags)
     = map (\<lambda>img. if image_id img \<in> set image_ids
                    then img\<lparr>tags := add_tags (tags img) new_tags\<rparr> else img) store"
    by (simp only: st tag_loop_eq fst_conv)
  have d: "add_tags (add_tags ts new_tags) new_tags = add_tags ts new_tags"
    by (rule add_tags_twice)
  have e: "\<exists>added. add_tags ts new_tags = ts @ added \<and> distinct added
          \<and> set added = set new_tags - set ts"
    by (rule add_tags_appends)
  have f: "distinct ts \<longrightarrow> distinct (add_tags ts new_tags)"
  proof
    assume dt: "distinct ts"
    obtain added where ad: "add_tags ts new_tags = ts @ added" "distinct added"
       "set added = set new_tags - set ts"
      using add_tags_appends [of ts new_tags] by (elim exE conjE)
    have "set ts \<inter> set added = {}" unfolding ad(3) by blast
    with dt ad(2) show "distinct (add_tags ts new_tags)" unfolding ad(1) by simp
  qed
  from a b c d e f show ?thesis by (intro conjI)
qed

theorem tag_images_idempotent_witness:
  "distinct [''beach'', ''blurry'']
   \<and> distinct (add_tags [''beach'', ''blurry''] [''beach'', ''trip'', ''trip''])
   \<and> add_tags [''beach'', ''blurry''] [''beach'', ''trip'', ''trip'']
       = [''beach'', ''blurry'', ''trip'']
   \<and> add_tags (add_tags [''beach'', ''blurry''] [''beach'', ''trip'', ''trip''])
         [''beach'', ''trip'', ''trip'']
       = [''beach'', ''blurry'', ''trip'']"
proof -
  have d: "distinct [''beach'', ''blurry'']" by simp
  have v: "add_tags [''beach'', ''blurry''] [''beach'', ''trip'', ''trip'']
       = [''beach'', ''blurry'', ''trip'']" by simp
  from tag_images_idempotent [of SAMPLE_IMAGES "[''img_003'']" "[''beach'', ''trip'', ''trip'']"
      "[''beach'', ''blurry'']"] d
  have "distinct (add_tags [''beach'', ''blurry''] [''beach'', ''trip'', ''trip''])"
   and "add_tags (add_tags [''beach'', ''blurry''] [''beach'', ''trip'', ''trip''])
         [''beach'', ''trip'', ''trip'']
       = add_tags [''beach'', ''blurry''] [''beach'', ''trip'', ''trip'']"
    by blast+
  with d v show ?thesis by simp
qed

subsection \<open>Paginated search\<close>

lemma ceil_div_pos:
  fixes n p :: int
  assumes "0 < p"
  shows "(n + p - 1) div p = \<lceil>(of_int n :: rat) / of_int p\<rceil>"
proof -
  let ?z = "(n + p - 1) div p"
  have lo: "?z * p \<le> n + p - 1"
    using assms by (metis mult.commute mult_div_mod_eq mod_int_pos_iff le_add_same_cancel1 pos_mod_sign)
  have hi: "n + p - 1 < ?z * p + p"
    using assms by (metis mult.commute mult_div_mod_eq add_strict_left_mono pos_mod_bound)
  have a: "n \<le> ?z * p" using hi by linarith
  have b: "(?z - 1) * p < n" using lo by (simp add: algebra_simps)
  have pr: "(0::rat) < of_int p" using assms by simp
  have "(of_int n :: rat) \<le> of_int (?z * p)" using a by (simp only: of_int_le_iff)
  then have 1: "(of_int n :: rat) / of_int p \<le> of_int ?z"
    using pr by (simp add: pos_divide_le_eq)
  have "(of_int ((?z - 1) * p) :: rat) < of_int n" using b by (simp only: of_int_less_iff)
  then have 2: "(of_int ?z :: rat) - 1 < of_int n / of_int p"
    using pr by (simp add: pos_less_divide_eq)
  show ?thesis using ceiling_unique [OF 2 1] by simp
qed

lemma slice_index_nonneg: "0 \<le> i \<Longrightarrow> slice_index n i = min (nat i) n"
  by (simp add: slice_index_def)

lemma py_slice_nonneg:
  assumes "0 \<le> s" "0 \<le> k"
  shows "py_slice xs s (s + k) = take (nat k) (drop (nat s) xs)"
proof (cases "nat s \<le> length xs")
  case True
  have "min (nat (s + k)) (length xs) - nat s = min (nat k) (length xs - nat s)"
    unfolding nat_add_distrib [OF assms] by arith
  then show ?thesis
    using assms True by (simp add: py_slice_def slice_index_nonneg Let_def min_def)
next
  case False
  then show ?thesis using assms by (simp add: py_slice_def slice_index_nonneg Let_def)
qed

lemma paginated_results_eq:
  assumes "1 \<le> page" "0 \<le> per_page"
  shows "paginated_results xs page per_page
           = take (nat per_page) (drop (nat (page - 1) * nat per_page) xs)"
proof -
  have "0 \<le> (page - 1) * per_page" using assms by simp
  moreover have "nat ((page - 1) * per_page) = nat (page - 1) * nat per_page"
    using assms by (simp add: nat_mult_distrib)
  ultimately show ?thesis
    using assms by (simp add: paginated_results_def Let_def py_slice_nonneg)
qed

lemma slice_length_le:
  assumes "0 \<le> k"
  shows "length (py_slice xs s (s + k)) \<le> nat k"
  using assms by (auto simp: py_slice_def slice_index_def Let_def)

lemma paginated_results_length:
  "0 \<le> per_page \<Longrightarrow> length (paginated_results xs page per_page) \<le> nat per_page"
  by (simp add: paginated_results_def Let_def slice_length_le)

lemma pages_concat_nat:
  assumes "0 \<le> per_page"
  shows "concat (map (\<lambda>p. paginated_results xs p per_page) [1..int m])
           = take (m * nat per_page) xs"
proof (induction m)
  case 0
  show ?case by simp
next
  case (Suc m)
  have "[1..int (Suc m)] = [1..int m] @ [int m + 1]"
    using upto_rec2 [of 1 "int (Suc m)"] by simp
  moreover have "paginated_results xs (int m + 1) per_page
           = take (nat per_page) (drop (m * nat per_page) xs)"
    using assms by (simp add: paginated_results_eq)
  moreover have "take (Suc m * nat per_page) xs
           = take (m * nat per_page) xs @ take (nat per_page) (drop (m * nat per_page) xs)"
    using take_add [of "m * nat per_page" "nat per_page" xs] by (simp add: add.commute)
  ultimately show ?case
    using Suc.IH by (simp del: mult_Suc)
qed

lemma pages_concat_all:
  assumes "0 \<le> per_page" "0 \<le> pages" "int (length xs) \<le> pages * per_page"
  shows "concat (map (\<lambda>p. paginated_results xs p per_page) [1..pages]) = xs"
proof -
  have "length xs \<le> nat pages * nat per_page"
    using assms by (metis nat_int nat_mono nat_mult_distrib)
  then show ?thesis
    using pages_concat_nat [OF assms(1), of xs "nat pages"] assms(2) by simp
qed

lemma page_beyond_last_empty:
  assumes "0 \<le> per_page" "int (length xs) \<le> pages * per_page" "pages < page" "0 \<le> pages"
  shows "paginated_results xs page per_page = []"
proof -
  have p1: "1 \<le> page" using assms by simp
  have "pages * per_page \<le> (page - 1) * per_page"
    using assms by (intro mult_right_mono) simp_all
  then have "int (length xs) \<le> (page - 1) * per_page" using assms(2) by linarith
  then have "length xs \<le> nat (page - 1) * nat per_page"
    using assms p1 by (metis nat_int nat_mono nat_mult_distrib diff_ge_0_iff_ge)
  then show ?thesis by (simp add: paginated_results_eq [OF p1 assms(1)])
qed

lemma returned_dict_get:
  "obj_get (returned_dict m s p pp n tp) ''success'' = Some (JBool True)"
  "obj_get (returned_dict m s p pp n tp) ''message'' = Some (JStr m)"
  "obj_get (returned_dict m s p pp n tp) ''summary'' = Some (JList s)"
  "obj_get (returned_dict m s p pp n tp) ''pagination''
     = Some (JObj [ (''page'', JInt p), (''per_page'', JInt pp),
                    (''total'', JInt n), (''pages'', JInt tp) ])"
  "obj_get (returned_dict m s p pp n tp) ''images'' = None"
  "obj_get (returned_dict m s p pp n tp) ''has_next'' = None"
  "obj_get (returned_dict m s p pp n tp) ''has_prev'' = None"
  by (simp_all add: returned_dict_def obj_get_def)

lemma full_data_dict_get:
  "obj_get (full_data_dict n p pp tp hn hp rs q l t qu) ''total_count'' = Some (JInt n)"
  "obj_get (full_data_dict n p pp tp hn hp rs q l t qu) ''total_pages'' = Some (JInt tp)"
  "obj_get (full_data_dict n p pp tp hn hp rs q l t qu) ''has_next'' = Some (JBool hn)"
  "obj_get (full_data_dict n p pp tp hn hp rs q l t qu) ''has_prev'' = Some (JBool hp)"
  "obj_get (full_data_dict n p pp tp hn hp rs q l t qu) ''images''
     = Some (JList (map create_full_image_dict rs))"
  by (simp_all add: full_data_dict_def obj_get_def)

lemma search_body_zero:
  "search_body store q l t qu page 0 = Inl ZeroDivisionError"
  by (simp add: search_body_def total_pages_of_def Let_def)

lemma search_images_paginated_zero:
  "search_images_paginated store q l t qu page 0 = Inl ZeroDivisionError"
  by (simp add: search_images_paginated_def search_body_zero)

lemma search_body_returns:
  assumes "per_page \<noteq> 0"
  shows "search_body store q l t qu page per_page =
     (let P = min per_page 10;
          results = search_results store q l t qu;
          N = int (length results);
          pages = (N + P - 1) div P;
          slice = paginated_results results page P
      in Inr (full_data_dict N page P pages (page < pages) (1 < page) slice q l t qu,
              returned_dict (summary_message N (length slice) page pages (page < pages))
                (map create_image_summary slice) page P N pages))"
proof -
  have nz: "min per_page 10 \<noteq> 0" using assms by (simp add: min_def)
  show ?thesis
    unfolding search_body_def Let_def total_pages_of_def
    using nz by simp
qed

lemma search_images_paginated_returns:
  assumes "per_page \<noteq> 0"
  shows "search_images_paginated store q l t qu page per_page =
     (let P = min per_page 10;
          results = search_results store q l t qu;
          N = int (length results);
          pages = (N + P - 1) div P;
          slice = paginated_results results page P
      in Inr (returned_dict (summary_message N (length slice) page pages (page < pages))
                (map create_image_summary slice) page P N pages))"
  by (simp add: search_images_paginated_def search_body_returns [OF assms] Let_def)

lemma py_slice_length_le: "length (py_slice xs s e) \<le> length xs"
  by (simp add: py_slice_def Let_def)

lemma search_loop_eq:
  "search_loop ql l t qu xs acc =
     acc @ filter (\<lambda>img. text_match ql img \<and> \<not> location_rejects l img
                          \<and> \<not> tags_reject t img \<and> \<not> quality_rejects qu img) xs"
  by (induction xs arbitrary: acc) simp_all

lemma beach_results:
  "map image_id (search_results SAMPLE_IMAGES ''beach'' None None None)
     = [''img_001'', ''img_002'', ''img_003'']"
  by code_simp

lemma beach_results_length:
  "length (search_results SAMPLE_IMAGES ''beach'' None None None) = 3"
proof -
  have "length (map image_id (search_results SAMPLE_IMAGES ''beach'' None None None)) = 3"
    unfolding beach_results by simp
  then show ?thesis by simp
qed

text \<open>
  C3, as the code has it. Whenever \<^verbatim>\<open>per_page\<close> is not zero, the paginated
  search returns a result with \<^verbatim>\<open>success\<close> true, for every page: it does not
  raise. The page size it reports is \<^verbatim>\<open>min(per_page, 10)\<close>, at most 10; the
  page never has more records than the match set; and for \<^verbatim>\<open>per_page\<close> of at
  least 1 the page has at most \<^verbatim>\<open>min(per_page, 10)\<close> records, hence at most 10.
  The function has no path that returns \<^verbatim>\<open>success\<close> false.
\<close>

theorem search_returns_for_nonzero_per_page:
  assumes "per_page \<noteq> 0"
  shows "\<exists>r summary pages.
     search_images_paginated store q l t qu page per_page = Inr r
     \<and> obj_get r ''success'' = Some (JBool True)
     \<and> obj_get r ''summary'' = Some (JList summary)
     \<and> obj_get r ''pagination''
         = Some (JObj [ (''page'', JInt page),
                        (''per_page'', JInt (min per_page 10)),
                        (''total'', JInt (int (length (search_results store q l t qu)))),
                        (''pages'', JInt pages) ])
     \<and> min per_page 10 \<le> 10
     \<and> length summary \<le> length (search_results store q l t qu)
     \<and> (1 \<le> per_page \<longrightarrow> length summary \<le> nat (min per_page 10) \<and> length summary \<le> 10)"
proof -
  define P where "P = min per_page 10"
  define results where "results = search_results store q l t qu"
  define N where "N = int (length results)"
  define pages where "pages = (N + P - 1) div P"
  define slice where "slice = paginated_results results page P"
  define r where "r = returned_dict (summary_message N (length slice) page pages (page < pages))
                (map create_image_summary slice) page P N pages"
  have ret: "search_images_paginated store q l t qu page per_page = Inr r"
    unfolding search_images_paginated_returns [OF assms] Let_def
      r_def slice_def pages_def N_def results_def P_def ..
  have g1: "obj_get r ''success'' = Some (JBool True)"
    and g2: "obj_get r ''summary'' = Some (JList (map create_image_summary slice))"
    and g3: "obj_get r ''pagination''
         = Some (JObj [ (''page'', JInt page), (''per_page'', JInt P),
                        (''total'', JInt N), (''pages'', JInt pages) ])"
    unfolding r_def by (simp_all add: returned_dict_get)
  have cl: "P \<le> 10" unfolding P_def by simp
  have le: "length (map create_image_summary slice) \<le> length results"
    unfolding slice_def by (simp add: paginated_results_def Let_def py_slice_length_le)
  have bd: "1 \<le> per_page \<longrightarrow>
      length (map create_image_summary slice) \<le> nat P
      \<and> length (map create_image_summary slice) \<le> 10"
  proof
    assume "1 \<le> per_page"
    then have "0 \<le> P" unfolding P_def by simp
    then have "length slice \<le> nat P"
      unfolding slice_def by (rule paginated_results_length)
    moreover have "nat P \<le> 10" using cl by simp
    ultimately show "length (map create_image_summary slice) \<le> nat P
      \<and> length (map create_image_summary slice) \<le> 10"
      by simp
  qed
  have "search_images_paginated store q l t qu page per_page = Inr r
     \<and> obj_get r ''success'' = Some (JBool True)
     \<and> obj_get r ''summary'' = Some (JList (map create_image_summary slice))
     \<and> obj_get r ''pagination''
         = Some (JObj [ (''page'', JInt page),
                        (''per_page'', JInt (min per_page 10)),
                        (''total'', JInt (int (length (search_results store q l t qu)))),
                        (''pages'', JInt pages) ])
     \<and> min per_page 10 \<le> 10
     \<and> length (map create_image_summary slice) \<le> length (search_results store q l t qu)
     \<and> (1 \<le> per_page \<longrightarrow> length (map create_image_summary slice) \<le> nat (min per_page 10)
            \<and> length (map create_image_summary slice) \<le> 10)"
    using ret g1 g2 g3 cl le bd unfolding N_def results_def P_def by (intro conjI)
  then show ?thesis by (intro exI)
qed


text \<open>A request for 25 records per page on the seeded gallery is cut to 10.\<close>

theorem search_returns_for_nonzero_per_page_witness:
  "(25::int) \<noteq> 0
   \<and> (\<exists>r summary pages.
        search_images_paginated SAMPLE_IMAGES [] None None None 1 25 = Inr r
        \<and> obj_get r ''success'' = Some (JBool True)
        \<and> obj_get r ''summary'' = Some (JList summary)
        \<and> obj_get r ''pagination''
            = Some (JObj [ (''page'', JInt 1), (''per_page'', JInt 10),
                           (''total'', JInt 6), (''pages'', JInt pages) ])
        \<and> length summary \<le> 10)"
proof -
  have h: "(25::int) \<noteq> 0" by simp
  have n: "length (search_results SAMPLE_IMAGES [] None None None) = 6"
    by code_simp
  obtain r summary pages where
    "search_images_paginated SAMPLE_IMAGES [] None None None 1 25 = Inr r"
    "obj_get r ''success'' = Some (JBool True)"
    "obj_get r ''summary'' = Some (JList summary)"
    "obj_get r ''pagination''
         = Some (JObj [ (''page'', JInt 1),
                        (''per_page'', JInt (min 25 10)),
                        (''total'', JInt (int (length (search_results SAMPLE_IMAGES [] None None None)))),
                        (''pages'', JInt pages) ])"
    "(1::int) \<le> 25 \<longrightarrow> length summary \<le> nat (min 25 10) \<and> length summary \<le> 10"
    using search_returns_for_nonzero_per_page [OF h, of SAMPLE_IMAGES "[]" None None None 1]
    by (elim exE conjE)
  then have "search_images_paginated SAMPLE_IMAGES [] None None None 1 25 = Inr r
        \<and> obj_get r ''success'' = Some (JBool True)
        \<and> obj_get r ''summary'' = Some (JList summary)
        \<and> obj_get r ''pagination''
            = Some (JObj [ (''page'', JInt 1), (''per_page'', JInt 10),
                           (''total'', JInt 6), (''pages'', JInt pages) ])
        \<and> length summary \<le> 10"
    unfolding n by simp
  then have "\<exists>r summary pages.
        search_images_paginated SAMPLE_IMAGES [] None None None 1 25 = Inr r
        \<and> obj_get r ''success'' = Some (JBool True)
        \<and> obj_get r ''summary'' = Some (JList summary)
        \<and> obj_get r ''pagination''
            = Some (JObj [ (''page'', JInt 1), (''per_page'', JInt 10),
                           (''total'', JInt 6), (''pages'', JInt pages) ])
        \<and> length summary \<le> 10"
    by (intro exI)
  with h show ?thesis by (rule conjI)
qed

text \<open>
  C3 as stated fails: with \<^verbatim>\<open>per_page = 0\<close> the division
  \<^verbatim>\<open>(total_count + per_page - 1) // per_page\<close> raises, and the function has no
  handler.
\<close>

theorem search_raises_on_zero_per_page:
  "search_images_paginated SAMPLE_IMAGES ''beach'' None None None 1 0 = Inl ZeroDivisionError"
  by (rule search_images_paginated_zero)

text \<open>
  The clamp has no lower bound: on a store of twelve records,
  \<^verbatim>\<open>per_page = -1\<close> makes the slice \<^verbatim>\<open>results[0:-1]\<close>, eleven records.
\<close>

lemma negative_per_page_page_exceeds_ten:
  "\<exists>r summary.
     search_images_paginated (SAMPLE_IMAGES @ SAMPLE_IMAGES) [] None None None 1 (- 1) = Inr r
     \<and> obj_get r ''summary'' = Some (JList summary) \<and> length summary = 11"
proof -
  have nz: "(- 1 :: int) \<noteq> 0" by simp
  define slice where
    "slice = paginated_results
               (search_results (SAMPLE_IMAGES @ SAMPLE_IMAGES) [] None None None) 1 (- 1)"
  have n: "length slice = 11"
    unfolding slice_def by code_simp
  have m: "min (- 1 :: int) 10 = - 1" by simp
  obtain r where r: "search_images_paginated (SAMPLE_IMAGES @ SAMPLE_IMAGES) [] None None None
        1 (- 1) = Inr r"
    and g: "obj_get r ''summary'' = Some (JList (map create_image_summary slice))"
    unfolding search_images_paginated_returns [OF nz] Let_def m slice_def [symmetric]
    by (simp add: returned_dict_get)
  have "length (map create_image_summary slice) = 11" using n by simp
  with r g show ?thesis by blast
qed

text \<open>
  C4, as the code has it. For a page size \<^verbatim>\<open>per_page\<close> of at least 1, with
  \<open>P\<close> the clamped size and \<open>N\<close> the size of the match set: the number of
  pages that the search reports is the ceiling of \<open>N / P\<close>. The search computes
  \<^verbatim>\<open>has_next\<close> as \<open>page < pages\<close> and \<^verbatim>\<open>has_prev\<close> as \<open>page > 1\<close> into its
  \<^verbatim>\<open>full_data\<close>; the dictionary it returns has neither key, it carries the
  page, the page size, the total and the number of pages, and its message ends
  with the hint to ask for more results exactly when \<open>page < pages\<close>. The page
  slices of the pages 1 to \<open>pages\<close>, one after the other, are the match set; and
  a page after the last gives an empty page in a result with \<^verbatim>\<open>success\<close> true
  and the same metadata.
\<close>

theorem pagination_correct:
  assumes "1 \<le> per_page"
  shows "let P = min per_page 10;
             results = search_results store q l t qu;
             N = int (length results);
             pages = \<lceil>(of_int N :: rat) / of_int P\<rceil>
         in total_pages_of N P = Inr pages
          \<and> (\<exists>full_data returned.
                search_body store q l t qu page per_page = Inr (full_data, returned)
                \<and> obj_get full_data ''total_pages'' = Some (JInt pages)
                \<and> obj_get full_data ''has_next'' = Some (JBool (page < pages))
                \<and> obj_get full_data ''has_prev'' = Some (JBool (page > 1))
                \<and> search_images_paginated store q l t qu page per_page = Inr returned
                \<and> obj_get returned ''success'' = Some (JBool True)
                \<and> obj_get returned ''summary''
                    = Some (JList (map create_image_summary (paginated_results results page P)))
                \<and> obj_get returned ''pagination''
                    = Some (JObj [ (''page'', JInt page), (''per_page'', JInt P),
                                   (''total'', JInt N), (''pages'', JInt pages) ])
                \<and> obj_get returned ''message''
                    = Some (JStr (''Found '' @ str_int N @ '' total images. ''
                          @ ''Showing '' @ str_nat (length (paginated_results results page P))
                          @ '' results on page '' @ str_int page @ '' of '' @ str_int pages
                          @ ''. ''
                          @ (if page < pages then ''Use page parameter to get more results.''
                             else ''No more results.'')))
                \<and> obj_get returned ''has_next'' = None
                \<and> obj_get returned ''has_prev'' = None)
          \<and> concat (map (\<lambda>p. paginated_results results p P) [1..pages]) = results
          \<and> (pages < page \<longrightarrow> paginated_results results page P = [])"
proof -
  define P where "P = min per_page 10"
  define results where "results = search_results store q l t qu"
  define N where "N = int (length results)"
  define pages where "pages = \<lceil>(of_int N :: rat) / of_int P\<rceil>"
  define slice where "slice = paginated_results results page P"
  define fd where "fd = full_data_dict N page P pages (page < pages) (1 < page) slice q l t qu"
  define rt where "rt = returned_dict (summary_message N (length slice) page pages (page < pages))
                (map create_image_summary slice) page P N pages"
  have Ppos: "0 < P" using assms by (simp add: P_def)
  have pages_div: "(N + P - 1) div P = pages"
    unfolding pages_def by (rule ceil_div_pos [OF Ppos])
  have tp: "total_pages_of N P = Inr pages"
    using Ppos by (simp add: total_pages_of_def pages_div)
  have nz: "per_page \<noteq> 0" using assms by simp
  have body: "search_body store q l t qu page per_page = Inr (fd, rt)"
    unfolding search_body_returns [OF nz] Let_def
      P_def [symmetric] results_def [symmetric] N_def [symmetric] pages_div
      slice_def [symmetric] fd_def [symmetric] rt_def [symmetric] ..
  have ret: "search_images_paginated store q l t qu page per_page = Inr rt"
    by (simp add: search_images_paginated_def body)
  have f1: "obj_get fd ''total_pages'' = Some (JInt pages)"
    and f2: "obj_get fd ''has_next'' = Some (JBool (page < pages))"
    and f3: "obj_get fd ''has_prev'' = Some (JBool (page > 1))"
    unfolding fd_def by (simp_all add: full_data_dict_get)
  have r1: "obj_get rt ''success'' = Some (JBool True)"
    and r2: "obj_get rt ''summary''
                    = Some (JList (map create_image_summary (paginated_results results page P)))"
    and r3: "obj_get rt ''pagination''
                    = Some (JObj [ (''page'', JInt page), (''per_page'', JInt P),
                                   (''total'', JInt N), (''pages'', JInt pages) ])"
    and r5: "obj_get rt ''has_next'' = None"
    and r6: "obj_get rt ''has_prev'' = None"
    unfolding rt_def slice_def by (simp_all add: returned_dict_get)
  have r4: "obj_get rt ''message''
                    = Some (JStr (''Found '' @ str_int N @ '' total images. ''
                          @ ''Showing '' @ str_nat (length (paginated_results results page P))
                          @ '' results on page '' @ str_int page @ '' of '' @ str_int pages
                          @ ''. ''
                          @ (if page < pages then ''Use page parameter to get more results.''
                             else ''No more results.'')))"
    unfolding rt_def slice_def returned_dict_get summary_message_def ..
  have "search_body store q l t qu page per_page = Inr (fd, rt)
                \<and> obj_get fd ''total_pages'' = Some (JInt pages)
                \<and> obj_get fd ''has_next'' = Some (JBool (page < pages))
                \<and> obj_get fd ''has_prev'' = Some (JBool (page > 1))
                \<and> search_images_paginated store q l t qu page per_page = Inr rt
                \<and> obj_get rt ''success'' = Some (JBool True)
                \<and> obj_get rt ''summary''
                    = Some (JList (map create_image_summary (paginated_results results page P)))
                \<and> obj_get rt ''pagination''
                    = Some (JObj [ (''page'', JInt page), (''per_page'', JInt P),
                                   (''total'', JInt N), (''pages'', JInt pages) ])
                \<and> obj_get rt ''message''
                    = Some (JStr (''Found '' @ str_int N @ '' total images. ''
                          @ ''Showing '' @ str_nat (length (paginated_results results page P))
                          @ '' results on page '' @ str_int page @ '' of '' @ str_int pages
                          @ ''. ''
                          @ (if page < pages then ''Use page parameter to get more results.''
                             else ''No more results.'')))
                \<and> obj_get rt ''has_next'' = None
                \<and> obj_get rt ''has_prev'' = None"
    using body f1 f2 f3 ret r1 r2 r3 r4 r5 r6 by (intro conjI)
  then have resp: "\<exists>full_data returned.
                search_body store q l t qu page per_page = Inr (full_data, returned)
                \<and> obj_get full_data ''total_pages'' = Some (JInt pages)
                \<and> obj_get full_data ''has_next'' = Some (JBool (page < pages))
                \<and> obj_get full_data ''has_prev'' = Some (JBool (page > 1))
                \<and> search_images_paginated store q l t qu page per_page = Inr returned
                \<and> obj_get returned ''success'' = Some (JBool True)
                \<and> obj_get returned ''summary''
                    = Some (JList (map create_image_summary (paginated_results results page P)))
                \<and> obj_get returned ''pagination''
                    = Some (JObj [ (''page'', JInt page), (''per_page'', JInt P),
                                   (''total'', JInt N), (''pages'', JInt pages) ])
                \<and> obj_get returned ''message''
                    = Some (JStr (''Found '' @ str_int N @ '' total images. ''
                          @ ''Showing '' @ str_nat (length (paginated_results results page P))
                          @ '' results on page '' @ str_int page @ '' of '' @ str_int pages
                          @ ''. ''
                          @ (if page < pages then ''Use page parameter to get more results.''
                             else ''No more results.'')))
                \<and> obj_get returned ''has_next'' = None
                \<and> obj_get returned ''has_prev'' = None"
    by (intro exI)
  have pages_nonneg: "0 \<le> pages"
    unfolding pages_div [symmetric] using Ppos by (simp add: N_def pos_imp_zdiv_nonneg_iff)
  have "(of_int N :: rat) / of_int P \<le> of_int pages"
    unfolding pages_def by (rule le_of_int_ceiling)
  then have "(of_int N :: rat) \<le> of_int (pages * P)"
    using Ppos by (simp add: pos_divide_le_eq)
  then have cover: "int (length results) \<le> pages * P"
    unfolding N_def by (simp only: of_int_le_iff)
  have Pnn: "0 \<le> P" using Ppos by simp
  have cat: "concat (map (\<lambda>p. paginated_results results p P) [1..pages]) = results"
    by (rule pages_concat_all [OF Pnn pages_nonneg cover])
  have beyond: "pages < page \<longrightarrow> paginated_results results page P = []"
  proof
    assume "pages < page"
    then show "paginated_results results page P = []"
      using page_beyond_last_empty [OF Pnn cover _ pages_nonneg] by simp
  qed
  from tp resp cat beyond show ?thesis
    unfolding Let_def P_def [symmetric] results_def [symmetric] N_def [symmetric]
      pages_def [symmetric]
    by (intro conjI)
qed

text \<open>
  Three beach records, two per page: two pages, which together are the three
  records, and an empty third page.
\<close>

theorem pagination_correct_witness:
  "(1::int) \<le> 2
   \<and> total_pages_of 3 2 = Inr 2
   \<and> (2::int) < 3
   \<and> paginated_results (search_results SAMPLE_IMAGES ''beach'' None None None) 3 2 = []
   \<and> concat (map (\<lambda>p. paginated_results (search_results SAMPLE_IMAGES ''beach'' None None None) p 2)
               [1..2])
       = search_results SAMPLE_IMAGES ''beach'' None None None
   \<and> map image_id (search_results SAMPLE_IMAGES ''beach'' None None None)
       = [''img_001'', ''img_002'', ''img_003'']"
proof -
  have h: "(1::int) \<le> 2" by simp
  have c: "\<lceil>(3::rat) / 2\<rceil> = 2" using ceil_div_pos [of 2 3] by simp
  from pagination_correct [OF h, of SAMPLE_IMAGES "''beach''" None None None 3]
  have "total_pages_of 3 2 = Inr 2"
    and "paginated_results (search_results SAMPLE_IMAGES ''beach'' None None None) 3 2 = []"
    and "concat (map (\<lambda>p. paginated_results (search_results SAMPLE_IMAGES ''beach'' None None None) p 2)
               [1..2])
       = search_results SAMPLE_IMAGES ''beach'' None None None"
    unfolding Let_def beach_results_length by (simp_all add: c)
  with h beach_results show ?thesis by simp
qed

text \<open>
  C4 as stated fails for the two flags: on page 2 of the beach search, where
  \<^verbatim>\<open>has_prev\<close> is true, the returned dictionary has no key \<^verbatim>\<open>has_prev\<close>
  and no key \<^verbatim>\<open>has_next\<close>; it reports the page, the page size, the total
  and the number of pages.
\<close>

theorem pagination_flags_not_returned:
  "map_sum id (\<lambda>r. (obj_get r ''has_next'', obj_get r ''has_prev'', obj_get r ''pagination''))
     (search_images_paginated SAMPLE_IMAGES ''beach'' None None None 2 2)
   = Inr (None, None,
          Some (JObj [ (''page'', JInt 2), (''per_page'', JInt 2),
                       (''total'', JInt 3), (''pages'', JInt 2) ]))"
proof -
  have nz: "(2::int) \<noteq> 0" by simp
  show ?thesis
    unfolding search_images_paginated_returns [OF nz] Let_def beach_results_length
    by (simp add: returned_dict_get)
qed

section \<open>Properties of the result cache\<close>

subsection \<open>The cache key\<close>

lemma filter_same_key:
  "distinct (map f xs) \<Longrightarrow> k \<in> set xs \<Longrightarrow> filter (\<lambda>x. f k = f x) xs = [k]"
proof (induction xs)
  case Nil
  then show ?case by simp
next
  case (Cons a xs)
  have da: "f a \<notin> f ` set xs" and dx: "distinct (map f xs)"
    using Cons.prems(1) by simp_all
  show ?case
  proof (cases "a = k")
    case True
    have "\<forall>x\<in>set xs. f k \<noteq> f x"
      using da True by (metis imageI)
    then have "filter (\<lambda>x. f k = f x) xs = []"
      by (simp add: filter_empty_conv)
    then show ?thesis using True by simp
  next
    case False
    then have kin: "k \<in> set xs" using Cons.prems(2) by simp
    then have "f k \<noteq> f a" using da by (metis imageI)
    moreover have "filter (\<lambda>x. f k = f x) xs = [k]" using Cons.IH [OF dx kin] .
    ultimately show ?thesis by simp
  qed
qed

lemma sort_key_of_permutation:
  assumes d: "distinct (map fst ps)" and m: "mset qs = mset ps"
  shows "sort_key fst qs = sort_key fst ps"
proof (rule properties_for_sort_key)
  show "mset (sort_key fst ps) = mset qs" using m by simp
next
  show "sorted (map fst (sort_key fst ps))" by simp
next
  fix k assume k: "k \<in> set (sort_key fst ps)"
  have "mset (map fst qs) = mset (map fst ps)" using m by simp
  then have dq: "distinct (map fst qs)"
    using d mset_eq_imp_distinct_iff by blast
  have "mset (map fst (sort_key fst ps)) = mset (map fst ps)" by simp
  then have ds: "distinct (map fst (sort_key fst ps))"
    using d mset_eq_imp_distinct_iff by blast
  have "set qs = set ps" using m by (rule mset_eq_setD)
  then have kq: "k \<in> set qs" using k by simp
  show "filter (\<lambda>x. fst k = fst x) (sort_key fst ps) = filter (\<lambda>x. fst k = fst x) qs"
    by (simp only: filter_same_key [OF ds k] filter_same_key [OF dq kq])
qed


lemma cache_key_order_independent:
  "distinct (map fst ps) \<Longrightarrow> mset qs = mset ps \<Longrightarrow> cache_key_of qs = cache_key_of ps"
proof -
  assume "distinct (map fst ps)" "mset qs = mset ps"
  then have "sort_key fst qs = sort_key fst ps" by (rule sort_key_of_permutation)
  then show ?thesis by (simp add: cache_key_of_def)
qed

subsection \<open>The key determines the parameter set\<close>

lemma digit_table: "\<forall>d \<in> set [0..<10]. is_digit (char_of (48 + (d::nat)))"
  by code_simp

lemma is_digit_char_of: "d < 10 \<Longrightarrow> is_digit (char_of (48 + (d::nat)))"
  using digit_table by simp

lemma of_char_digit: "d < 10 \<Longrightarrow> of_char (char_of (48 + d)) - 48 = (d::nat)"
  by simp

lemma str_nat_digits: "list_all is_digit (str_nat n) \<and> str_nat n \<noteq> []"
proof (induction n rule: str_nat.induct)
  case (1 n)
  show ?case
  proof (cases "n < 10")
    case True
    then show ?thesis by (subst (1 2) str_nat.simps) (simp add: is_digit_char_of)
  next
    case False
    then show ?thesis using 1 by (subst (1 2) str_nat.simps) (simp add: is_digit_char_of)
  qed
qed

lemma digits_val_single: "digits_val [c] = of_char c - 48"
  by (simp add: digits_val_def)

lemma digits_val_snoc: "digits_val (s @ [c]) = 10 * digits_val s + (of_char c - 48)"
  by (simp add: digits_val_def)

lemma digits_val_str_nat: "digits_val (str_nat n) = n"
proof (induction n rule: str_nat.induct)
  case (1 n)
  show ?case
  proof (cases "n < 10")
    case True
    then have "str_nat n = [char_of (48 + n)]" by (subst str_nat.simps) simp
    then show ?thesis using of_char_digit [OF True] by (simp only: digits_val_single)
  next
    case False
    then have IH: "digits_val (str_nat (n div 10)) = n div 10" using 1 by simp
    have m: "n mod 10 < 10" by simp
    have "str_nat n = str_nat (n div 10) @ [char_of (48 + n mod 10)]"
      using False by (subst str_nat.simps) simp
    then have "digits_val (str_nat n) = 10 * (n div 10) + n mod 10"
      using of_char_digit [OF m] IH by (simp only: digits_val_snoc)
    then show ?thesis by simp
  qed
qed

lemma str_nat_inj:
  assumes "str_nat n = str_nat m"
  shows "n = m"
proof -
  have "digits_val (str_nat n) = digits_val (str_nat m)"
    using assms by (rule arg_cong)
  then show ?thesis by (simp only: digits_val_str_nat)
qed

lemma digit_span:
  "list_all is_digit a \<Longrightarrow> list_all is_digit b \<Longrightarrow> a @ r = b @ r'
   \<Longrightarrow> non_digit_start r \<Longrightarrow> non_digit_start r' \<Longrightarrow> a = b \<and> r = r'"
proof (induction a arbitrary: b)
  case Nil
  then show ?case by (cases b) (auto simp: non_digit_start_def)
next
  case (Cons x a)
  show ?case
  proof (cases b)
    case Nil
    then show ?thesis using Cons.prems by (auto simp: non_digit_start_def)
  next
    case (Cons y b')
    then show ?thesis using Cons.prems Cons.IH [of b'] by simp
  qed
qed

lemma minus_not_digit: "\<not> is_digit CHR ''-''"
  by (simp add: is_digit_def)

lemma str_nat_hd: "\<exists>c cs. str_nat n = c # cs \<and> is_digit c"
  using str_nat_digits [of n] by (cases "str_nat n") simp_all

lemma str_int_unique:
  assumes "str_int i @ r = str_int i' @ r'" "non_digit_start r" "non_digit_start r'"
  shows "i = i' \<and> r = r'"
proof -
  obtain c cs where c: "str_nat (nat (- i)) = c # cs" "is_digit c"
    using str_nat_hd by blast
  obtain d ds where d: "str_nat (nat i) = d # ds" "is_digit d"
    using str_nat_hd by blast
  obtain c' cs' where c': "str_nat (nat (- i')) = c' # cs'" "is_digit c'"
    using str_nat_hd by blast
  obtain d' ds' where d': "str_nat (nat i') = d' # ds'" "is_digit d'"
    using str_nat_hd by blast
  have all: "\<And>n. list_all is_digit (str_nat n)" using str_nat_digits by simp
  show ?thesis
  proof (cases "i < 0")
    case True
    show ?thesis
    proof (cases "i' < 0")
      case True
      with \<open>i < 0\<close> assms(1) have "str_nat (nat (- i)) @ r = str_nat (nat (- i')) @ r'"
        by (simp add: str_int_def)
      from digit_span [OF all all this assms(2,3)]
      have "nat (- i) = nat (- i')" "r = r'" using str_nat_inj by auto
      then show ?thesis using True \<open>i < 0\<close> by simp
    next
      case False
      with \<open>i < 0\<close> assms(1) d' minus_not_digit show ?thesis
        by (auto simp: str_int_def)
    qed
  next
    case False
    show ?thesis
    proof (cases "i' < 0")
      case True
      with \<open>\<not> i < 0\<close> assms(1) d minus_not_digit show ?thesis
        by (auto simp: str_int_def)
    next
      case False
      with \<open>\<not> i < 0\<close> assms(1) have "str_nat (nat i) @ r = str_nat (nat i') @ r'"
        by (simp add: str_int_def)
      from digit_span [OF all all this assms(2,3)]
      have "nat i = nat i'" "r = r'" using str_nat_inj by auto
      then show ?thesis using False \<open>\<not> i < 0\<close> by simp
    qed
  qed
qed

lemma str_int_hd: "\<exists>c cs. str_int i = c # cs \<and> (c = CHR ''-'' \<or> is_digit c)"
  using str_nat_hd [of "nat i"] by (auto simp: str_int_def)

lemma escape_special: "esc_special c \<Longrightarrow> escape_char c = [CHR 0x5C, esc_code c]"
  by (auto simp: esc_special_def escape_char_def esc_code_def)

lemma escape_plain: "esc_plain c \<Longrightarrow> escape_char c = [c]"
  by (auto simp: esc_plain_def esc_special_def escape_char_def)

lemma escape_unicode:
  "\<not> esc_special c \<Longrightarrow> \<not> esc_plain c \<Longrightarrow>
   escape_char c = [CHR 0x5C, CHR ''u'', CHR ''0'', CHR ''0'',
                    hex_digit (of_char c div 16), hex_digit (of_char c)]"
  by (auto simp: esc_plain_def esc_special_def escape_char_def)

lemma plain_not_backslash: "esc_plain c \<Longrightarrow> c \<noteq> CHR 0x5C \<and> c \<noteq> CHR 0x22"
  by (auto simp: esc_plain_def esc_special_def)

lemma esc_code_not_u: "esc_code c \<noteq> CHR ''u''"
  by (simp add: esc_code_def)

lemma esc_code_inj:
  "esc_special c \<Longrightarrow> esc_special c' \<Longrightarrow> esc_code c = esc_code c' \<Longrightarrow> c = c'"
  by (auto simp: esc_special_def esc_code_def split: if_splits)

lemma hex_digit_inj:
  assumes "hex_digit a = hex_digit b"
  shows "a mod 16 = b mod 16"
proof -
  have d: "distinct ''0123456789abcdef''" by simp
  have l: "length ''0123456789abcdef'' = 16" by simp
  have "a mod 16 < length ''0123456789abcdef''" "b mod 16 < length ''0123456789abcdef''"
    by simp_all
  from nth_eq_iff_index_eq [OF d this] assms show ?thesis
    by (simp only: hex_digit_def)
qed

lemma of_char_less_256: "of_char c < (256::nat)"
proof -
  have "(of_char c :: nat) mod 256 < 256" by (rule mod_less_divisor) simp
  then show ?thesis by (simp only: of_char_mod_256)
qed

lemma nat_from_nibbles:
  fixes a b :: nat
  assumes "a < 16 * 16" "b < 16 * 16"
    and "a div 16 mod 16 = b div 16 mod 16" and "a mod 16 = b mod 16"
  shows "a = b"
proof -
  have la: "a div 16 < 16" by (rule less_mult_imp_div_less [OF assms(1)])
  have lb: "b div 16 < 16" by (rule less_mult_imp_div_less [OF assms(2)])
  have "a div 16 = a div 16 mod 16" by (rule mod_less [OF la, symmetric])
  also have "\<dots> = b div 16 mod 16" by (rule assms(3))
  also have "\<dots> = b div 16" by (rule mod_less [OF lb])
  finally have d: "a div 16 = b div 16" .
  have "a = 16 * (a div 16) + a mod 16" by (rule mult_div_mod_eq [symmetric])
  also have "\<dots> = 16 * (b div 16) + b mod 16" unfolding d assms(4) by (rule refl)
  also have "\<dots> = b" by (rule mult_div_mod_eq)
  finally show ?thesis .
qed

lemma of_char_from_nibbles:
  assumes "(of_char c :: nat) div 16 mod 16 = of_char c' div 16 mod 16"
    and "(of_char c :: nat) mod 16 = of_char c' mod 16"
  shows "c = c'"
proof -
  have e: "(16::nat) * 16 = 256" by simp
  have "(of_char c :: nat) < 16 * 16" "(of_char c' :: nat) < 16 * 16"
    by (simp_all only: e of_char_less_256)
  then have "(of_char c :: nat) = of_char c'"
    using assms by (rule nat_from_nibbles)
  then show ?thesis by (simp only: of_char_eq_iff)
qed

lemma escape_char_prefix_free:
  assumes "escape_char c @ t = escape_char c' @ t'"
  shows "c = c' \<and> t = t'"
proof -
  consider (s) "esc_special c" | (p) "esc_plain c" | (u) "\<not> esc_special c" "\<not> esc_plain c" by blast
  then show ?thesis
  proof cases
    case s
    consider (s') "esc_special c'" | (p') "esc_plain c'" | (u') "\<not> esc_special c'" "\<not> esc_plain c'" by blast
    then show ?thesis
    proof cases
      case s'
      then show ?thesis using s assms esc_code_inj [of c c']
        by (simp add: escape_special)
    next
      case p'
      then show ?thesis using s assms plain_not_backslash [of c']
        by (simp add: escape_special escape_plain)
    next
      case u'
      then show ?thesis using s assms esc_code_not_u [of c]
        by (simp add: escape_special escape_unicode)
    qed
  next
    case p
    consider (s') "esc_special c'" | (p') "esc_plain c'" | (u') "\<not> esc_special c'" "\<not> esc_plain c'" by blast
    then show ?thesis
    proof cases
      case s'
      then show ?thesis using p assms plain_not_backslash [of c]
        by (simp add: escape_special escape_plain)
    next
      case p'
      then show ?thesis using p assms by (simp add: escape_plain)
    next
      case u'
      then show ?thesis using p assms plain_not_backslash [of c]
        by (simp add: escape_plain escape_unicode)
    qed
  next
    case u
    consider (s') "esc_special c'" | (p') "esc_plain c'" | (u') "\<not> esc_special c'" "\<not> esc_plain c'" by blast
    then show ?thesis
    proof cases
      case s'
      then show ?thesis using u assms esc_code_not_u [of c']
        by (simp add: escape_special escape_unicode)
    next
      case p'
      then show ?thesis using u assms plain_not_backslash [of c']
        by (simp add: escape_plain escape_unicode)
    next
      case u'
      have e: "hex_digit (of_char c div 16) = hex_digit (of_char c' div 16)"
              "hex_digit (of_char c) = hex_digit (of_char c')" "t = t'"
        using u u' assms by (simp_all add: escape_unicode)
      have "c = c'"
        using hex_digit_inj [OF e(1)] hex_digit_inj [OF e(2)] by (rule of_char_from_nibbles)
      then show ?thesis using e(3) by simp
    qed
  qed
qed

lemma escape_char_hd: "\<exists>x xs. escape_char c = x # xs \<and> x \<noteq> CHR 0x22"
proof -
  consider (s) "esc_special c" | (p) "esc_plain c" | (u) "\<not> esc_special c" "\<not> esc_plain c" by blast
  then show ?thesis
  proof cases
    case s then show ?thesis by (simp add: escape_special)
  next
    case p then show ?thesis using plain_not_backslash [of c] by (simp add: escape_plain)
  next
    case u then show ?thesis by (simp add: escape_unicode)
  qed
qed

lemma escaped_body_unique:
  "concat (map escape_char s) @ CHR 0x22 # r = concat (map escape_char s') @ CHR 0x22 # r'
   \<Longrightarrow> s = s' \<and> r = r'"
proof (induction s arbitrary: s')
  case Nil
  show ?case
  proof (cases s')
    case Nil
    then show ?thesis using Nil.prems by simp
  next
    case (Cons c' t')
    obtain x xs where "escape_char c' = x # xs" "x \<noteq> CHR 0x22"
      using escape_char_hd by blast
    then show ?thesis using Nil.prems Cons by simp
  qed
next
  case (Cons c t)
  show ?case
  proof (cases s')
    case Nil
    obtain x xs where "escape_char c = x # xs" "x \<noteq> CHR 0x22"
      using escape_char_hd by blast
    then show ?thesis using Cons.prems Nil by simp
  next
    case (Cons c' t')
    have "escape_char c @ (concat (map escape_char t) @ CHR 0x22 # r)
          = escape_char c' @ (concat (map escape_char t') @ CHR 0x22 # r')"
      using Cons.prems Cons by simp
    from escape_char_prefix_free [OF this]
    have "c = c'" "concat (map escape_char t) @ CHR 0x22 # r = concat (map escape_char t') @ CHR 0x22 # r'"
      by simp_all
    then show ?thesis using Cons.IH [of t'] Cons by simp
  qed
qed

lemma json_quote_unique:
  assumes "json_quote s @ r = json_quote s' @ r'"
  shows "s = s' \<and> r = r'"
  using assms escaped_body_unique [of s r s' r'] by (simp add: json_quote_def)

lemma delim_non_digit: "key_delim r \<Longrightarrow> non_digit_start r"
  by (auto simp: key_delim_def non_digit_start_def is_digit_def split: list.splits)

lemma delim_simps:
  "key_delim []" "key_delim (CHR '','' # r)" "key_delim (CHR '']'' # r)" "key_delim (CHR ''}'' # r)"
  by (simp_all add: key_delim_def)

lemma dumps_hd: "\<exists>c cs. json_dumps_sorted j = c # cs \<and> lead_char j c"
proof (cases j)
  case (JInt i)
  then show ?thesis using str_int_hd [of i] by simp
qed (simp_all add: json_quote_def)

lemma lead_not_close: "lead_char j c \<Longrightarrow> c \<noteq> CHR '']'' \<and> c \<noteq> CHR ''}'' \<and> c \<noteq> CHR '',''"
  by (cases j) (auto simp: is_digit_def)

lemma join_append:
  "join sep (x # xs) @ R = x @ (if xs = [] then R else sep @ join sep xs @ R)"
  by (cases xs) simp_all

lemma join_rest: "join '', '' (map f (x # t)) @ cl # r = f x @ items_rest f cl t r"
  by (simp add: join_append items_rest_def del: join.simps)

lemma delim_rest: "cl = CHR '']'' \<or> cl = CHR ''}'' \<Longrightarrow> key_delim (items_rest f cl t r)"
  by (auto simp: items_rest_def key_delim_def)

lemma rest_eq:
  assumes "cl = CHR '']'' \<or> cl = CHR ''}''" "items_rest f cl t r = items_rest f cl t' r'"
  shows "join '', '' (map f t) @ cl # r = join '', '' (map f t') @ cl # r'"
proof (cases "t = []")
  case True
  then show ?thesis using assms by (cases "t' = []") (auto simp: items_rest_def)
next
  case False
  then show ?thesis using assms by (cases "t' = []") (auto simp: items_rest_def)
qed

lemma join_items_unique:
  fixes f :: "'a \<Rightarrow> string" and c :: "'a \<Rightarrow> 'b"
  assumes hd: "\<And>y. \<exists>a as. f y = a # as \<and> a \<noteq> cl"
    and cl: "cl = CHR '']'' \<or> cl = CHR ''}''"
  shows "(\<And>x y R R'. x \<in> set xs \<Longrightarrow> key_delim R \<Longrightarrow> key_delim R' \<Longrightarrow> f x @ R = f y @ R'
            \<Longrightarrow> c x = c y \<and> R = R')
         \<Longrightarrow> join '', '' (map f xs) @ cl # r = join '', '' (map f ys) @ cl # r'
         \<Longrightarrow> map c xs = map c ys \<and> r = r'"
proof (induction xs arbitrary: ys)
  case Nil
  show ?case
  proof (cases ys)
    case Nil
    then show ?thesis using Nil.prems(2) by simp
  next
    case (Cons y t')
    obtain a as where "f y = a # as" "a \<noteq> cl" using hd by blast
    then show ?thesis using Nil.prems(2) unfolding Cons join_rest by simp
  qed
next
  case (Cons x t)
  show ?case
  proof (cases ys)
    case Nil
    obtain a as where "f x = a # as" "a \<noteq> cl" using hd by blast
    then show ?thesis using Cons.prems(2) unfolding Nil join_rest by simp
  next
    case (Cons y t')
    have e: "f x @ items_rest f cl t r = f y @ items_rest f cl t' r'"
      using Cons.prems(2) unfolding Cons join_rest .
    have "c x = c y \<and> items_rest f cl t r = items_rest f cl t' r'"
      by (rule Cons.prems(1) [OF _ delim_rest [OF cl] delim_rest [OF cl] e]) simp
    then have cx: "c x = c y" and re: "items_rest f cl t r = items_rest f cl t' r'" by simp_all
    have "map c t = map c t' \<and> r = r'"
    proof (rule Cons.IH)
      show "join '', '' (map f t) @ cl # r = join '', '' (map f t') @ cl # r'"
        by (rule rest_eq [OF cl re])
    next
      fix x' y' R R'
      assume "x' \<in> set t" "key_delim R" "key_delim R'" "f x' @ R = f y' @ R'"
      then show "c x' = c y' \<and> R = R'"
        using Cons.prems(1) [of x' R R' y'] by simp
    qed
    then show ?thesis using cx Cons by simp
  qed
qed

lemma dumps_unique:
  "json_dumps_sorted j @ r = json_dumps_sorted j' @ r' \<Longrightarrow> key_delim r \<Longrightarrow> key_delim r'
   \<Longrightarrow> canonical j = canonical j' \<and> r = r'"
proof (induction j arbitrary: j' r r')
  case JNull
  obtain c cs where h: "json_dumps_sorted j' = c # cs" "lead_char j' c" using dumps_hd by blast
  show ?case
  proof (cases j')
    case JNull
    then show ?thesis using JNull.prems by simp
  qed (insert JNull.prems h, auto simp: is_digit_def)
next
  case (JBool b)
  obtain c cs where h: "json_dumps_sorted j' = c # cs" "lead_char j' c" using dumps_hd by blast
  show ?case
  proof (cases j')
    case (JBool b')
    then show ?thesis using JBool.prems by (auto split: if_splits)
  qed (insert JBool.prems h, auto simp: is_digit_def split: if_splits)
next
  case (JInt i)
  obtain c cs where h: "json_dumps_sorted j' = c # cs" "lead_char j' c" using dumps_hd by blast
  obtain a as where g: "str_int i = a # as" "a = CHR ''-'' \<or> is_digit a"
    using str_int_hd by blast
  show ?case
  proof (cases j')
    case (JInt i')
    then show ?thesis
      using JInt.prems str_int_unique [of i r i' r'] delim_non_digit by simp
  qed (insert JInt.prems h g, auto simp: is_digit_def)
next
  case (JStr s)
  obtain c cs where h: "json_dumps_sorted j' = c # cs" "lead_char j' c" using dumps_hd by blast
  show ?case
  proof (cases j')
    case (JStr s')
    then show ?thesis using JStr.prems json_quote_unique [of s r s' r'] by simp
  qed (insert JStr.prems h, auto simp: is_digit_def json_quote_def)
next
  case (JList xs)
  obtain c cs where h: "json_dumps_sorted j' = c # cs" "lead_char j' c" using dumps_hd by blast
  show ?case
  proof (cases j')
    case (JList xs')
    have e: "join '', '' (map json_dumps_sorted xs) @ CHR '']'' # r
             = join '', '' (map json_dumps_sorted xs') @ CHR '']'' # r'"
      using JList.prems(1) unfolding JList by simp
    have "map canonical xs = map canonical xs' \<and> r = r'"
    proof (rule join_items_unique [where f = json_dumps_sorted and cl = "CHR '']''", OF _ _ _ e])
      fix y
      obtain a as where "json_dumps_sorted y = a # as" "lead_char y a" using dumps_hd by blast
      then show "\<exists>a as. json_dumps_sorted y = a # as \<and> a \<noteq> CHR '']''"
        using lead_not_close [of y a] by simp
    next
      show "CHR '']'' = CHR '']'' \<or> CHR '']'' = CHR ''}''" by simp
    next
      fix x y R R'
      assume "x \<in> set xs" "key_delim R" "key_delim R'" "json_dumps_sorted x @ R = json_dumps_sorted y @ R'"
      then show "canonical x = canonical y \<and> R = R'"
        using JList.IH [of x R y R'] by simp
    qed
    then show ?thesis using JList by simp
  qed (insert JList.prems h, auto simp: is_digit_def)
next
  case (JObj d)
  obtain c cs where h: "json_dumps_sorted j' = c # cs" "lead_char j' c" using dumps_hd by blast
  let ?f = "\<lambda>(k, v). json_quote k @ '': '' @ json_dumps_sorted v"
  let ?c = "\<lambda>(k, v). (k, canonical v)"
  show ?case
  proof (cases j')
    case (JObj d')
    have e: "join '', '' (map ?f (sort_key fst d)) @ CHR ''}'' # r
             = join '', '' (map ?f (sort_key fst d')) @ CHR ''}'' # r'"
      using JObj.prems(1) unfolding JObj by simp
    have "map ?c (sort_key fst d) = map ?c (sort_key fst d') \<and> r = r'"
    proof (rule join_items_unique [where f = ?f and cl = "CHR ''}''", OF _ _ _ e])
      fix y :: "string \<times> json"
      show "\<exists>a as. ?f y = a # as \<and> a \<noteq> CHR ''}''"
        by (cases y) (simp add: json_quote_def)
    next
      show "CHR ''}'' = CHR '']'' \<or> CHR ''}'' = CHR ''}''" by simp
    next
      fix x y :: "string \<times> json" and R R'
      assume a: "x \<in> set (sort_key fst d)" "key_delim R" "key_delim R'" "?f x @ R = ?f y @ R'"
      obtain k v where x: "x = (k, v)" by (cases x)
      obtain k' v' where y: "y = (k', v')" by (cases y)
      have "json_quote k @ ('': '' @ json_dumps_sorted v @ R)
            = json_quote k' @ ('': '' @ json_dumps_sorted v' @ R')"
        using a(4) unfolding x y by simp
      from json_quote_unique [OF this]
      have kk: "k = k'" and vv: "json_dumps_sorted v @ R = json_dumps_sorted v' @ R'"
        by simp_all
      have "(k, v) \<in> set d" using a(1) x by simp
      then have "canonical v = canonical v' \<and> R = R'"
        using JObj.IH [of "(k, v)" v R v' R'] vv a(2,3) by simp
      then show "?c x = ?c y \<and> R = R'" using kk x y by simp
    qed
    then show ?thesis using JObj by simp
  qed (insert JObj.prems h, auto simp: is_digit_def)
qed

lemma sort_key_canonical:
  "sort_key fst (map (\<lambda>(k, v). (k, canonical v)) (sort_key fst d))
   = map (\<lambda>(k, v). (k, canonical v)) (sort_key fst d)"
proof (rule sort_key_id_if_sorted)
  have "map fst (map (\<lambda>(k, v). (k, canonical v)) (sort_key fst d)) = map fst (sort_key fst d)"
    by (simp add: case_prod_beta comp_def)
  then show "sorted (map fst (map (\<lambda>(k, v). (k, canonical v)) (sort_key fst d)))"
    by (simp only: sorted_sort_key)
qed

lemma dumps_canonical: "json_dumps_sorted (canonical j) = json_dumps_sorted j"
proof (induction j)
  case (JList xs)
  have "map (json_dumps_sorted \<circ> canonical) xs = map json_dumps_sorted xs"
    by (rule map_cong [OF refl]) (simp add: JList)
  then have e: "map json_dumps_sorted (map canonical xs) = map json_dumps_sorted xs"
    by (simp only: map_map)
  show ?case unfolding canonical.simps json_dumps_sorted.simps e by (rule refl)
next
  case (JObj d)
  let ?f = "\<lambda>(k, v). json_quote k @ '': '' @ json_dumps_sorted v"
  let ?c = "\<lambda>(k, v). (k, canonical v)"
  have "map (?f \<circ> ?c) (sort_key fst d) = map ?f (sort_key fst d)"
  proof (rule map_cong [OF refl])
    fix x assume "x \<in> set (sort_key fst d)"
    then have x: "x \<in> set d" by simp
    obtain k v where kv: "x = (k, v)" by (cases x)
    have "json_dumps_sorted (canonical v) = json_dumps_sorted v"
      using JObj [of x v] x kv by simp
    then show "(?f \<circ> ?c) x = ?f x" using kv by simp
  qed
  then have "map ?f (map ?c (sort_key fst d)) = map ?f (sort_key fst d)"
    by (simp only: map_map)
  then show ?case by (simp only: canonical.simps json_dumps_sorted.simps sort_key_canonical)
qed simp_all

lemma dumps_eq_iff:
  "json_dumps_sorted j = json_dumps_sorted j' \<longleftrightarrow> canonical j = canonical j'"
proof
  assume "json_dumps_sorted j = json_dumps_sorted j'"
  then have "json_dumps_sorted j @ [] = json_dumps_sorted j' @ []" by simp
  from dumps_unique [OF this delim_simps(1) delim_simps(1)]
  show "canonical j = canonical j'" by simp
next
  assume "canonical j = canonical j'"
  then have "json_dumps_sorted (canonical j) = json_dumps_sorted (canonical j')" by simp
  then show "json_dumps_sorted j = json_dumps_sorted j'" by (simp only: dumps_canonical)
qed

lemma cache_key_eq_iff:
  "cache_key_of ps = cache_key_of qs \<longleftrightarrow> canonical (JObj ps) = canonical (JObj qs)"
  unfolding cache_key_of_def by (rule dumps_eq_iff)

lemma canonical_dict_free: "dict_free j \<Longrightarrow> canonical j = j"
proof (induction j)
  case (JList xs)
  then have "map canonical xs = xs"
    by (intro map_idI) (simp add: list_all_iff)
  then show ?case by simp
qed simp_all

lemma canonical_flat:
  assumes "list_all dict_free (map snd ps)"
  shows "canonical (JObj ps) = JObj (sort_key fst ps)"
proof -
  have "map (\<lambda>(k, v). (k, canonical v)) (sort_key fst ps) = sort_key fst ps"
  proof (rule map_idI)
    fix x assume "x \<in> set (sort_key fst ps)"
    then have "x \<in> set ps" by simp
    then have "dict_free (snd x)" using assms by (simp add: list_all_iff)
    then show "(case x of (k, v) \<Rightarrow> (k, canonical v)) = x"
      by (cases x) (simp add: canonical_dict_free)
  qed
  then show ?thesis by simp
qed

lemma sort_key_eq_iff_map_of:
  assumes dp: "distinct (map fst ps)" and dq: "distinct (map fst qs)"
  shows "sort_key fst ps = sort_key fst qs \<longleftrightarrow> map_of ps = map_of qs"
proof
  assume "sort_key fst ps = sort_key fst qs"
  then have "set (sort_key fst ps) = set (sort_key fst qs)" by simp
  then have "set ps = set qs" by simp
  then show "map_of ps = map_of qs" using map_of_inject_set [OF dp dq] by simp
next
  assume "map_of ps = map_of qs"
  then have s: "set ps = set qs" using map_of_inject_set [OF dp dq] by simp
  have "distinct ps" "distinct qs" using dp dq by (simp_all add: distinct_map)
  then have "mset ps = mset qs" using s by (simp add: set_eq_iff_mset_eq_distinct)
  then show "sort_key fst ps = sort_key fst qs"
    by (rule sort_key_of_permutation [OF dq])
qed

lemma cache_key_eq_iff_flat:
  assumes "flat_params ps" "flat_params qs"
  shows "cache_key_of ps = cache_key_of qs \<longleftrightarrow> map_of ps = map_of qs"
proof -
  have dp: "distinct (map fst ps)" and fp: "list_all dict_free (map snd ps)"
    using assms(1) by (simp_all add: flat_params_def)
  have dq: "distinct (map fst qs)" and fq: "list_all dict_free (map snd qs)"
    using assms(2) by (simp_all add: flat_params_def)
  have "cache_key_of ps = cache_key_of qs \<longleftrightarrow> sort_key fst ps = sort_key fst qs"
    by (simp only: cache_key_eq_iff canonical_flat [OF fp] canonical_flat [OF fq] json.inject)
  then show ?thesis by (simp only: sort_key_eq_iff_map_of [OF dp dq])
qed

lemma canonical_idem: "canonical (canonical j) = canonical j"
  using dumps_canonical [of j] by (simp only: dumps_eq_iff)

lemma dumps_inj_on_canonical: "inj_on json_dumps_sorted (range canonical)"
proof (rule inj_onI)
  fix a b assume "a \<in> range canonical" "b \<in> range canonical"
  then obtain x y where a: "a = canonical x" and b: "b = canonical y" by (elim rangeE)
  assume "json_dumps_sorted a = json_dumps_sorted b"
  then have "canonical a = canonical b" by (simp only: dumps_eq_iff)
  then show "a = b" unfolding a b canonical_idem .
qed

lemma search_result_shape:
  assumes "search_images_paginated store q l t qu page per_page = Inr r"
  shows "\<exists>m s n tp. r = returned_dict m s page (min per_page 10) n tp"
proof (cases "per_page = 0")
  case True
  then show ?thesis using assms by (simp add: search_images_paginated_zero)
next
  case False
  have "\<exists>m s n tp. search_images_paginated store q l t qu page per_page
           = Inr (returned_dict m s page (min per_page 10) n tp)"
    unfolding search_images_paginated_returns [OF False] Let_def
    by (intro exI) (rule refl)
  then obtain m s n tp where
    "search_images_paginated store q l t qu page per_page
           = Inr (returned_dict m s page (min per_page 10) n tp)"
    by (elim exE)
  with assms have "r = returned_dict m s page (min per_page 10) n tp" by simp
  then show ?thesis by (intro exI)
qed

subsection \<open>What a call does to the cache\<close>

lemma invoke_search_bound:
  "invoke_search store tool_input = invoke_bound store (bind_search_args tool_input)"
  by (simp add: invoke_search_def invoke_bound_def)

lemma call_search_tool_typed:
  "call_search_tool self (store, now, tool_input)
     = call_search_bound self (typed_call store now tool_input)"
  by (simp add: call_search_tool_def call_search_bound_def typed_call_def invoke_search_bound)

lemma invoke_bound_shape:
  assumes "invoke_bound store bound = Some r"
  shows "\<exists>m s p pp n tp. r = returned_dict m s p pp n tp"
proof (cases bound)
  case None
  then show ?thesis using assms by (simp add: invoke_bound_def)
next
  case (Some a)
  then have "search_images_paginated store (arg_query a) (arg_location a) (arg_tags a)
        (arg_quality a) (arg_page a) (arg_per_page a) = Inr r"
    using assms by (simp add: invoke_bound_def split: sum.splits)
  from search_result_shape [OF this] obtain m s n tp where
    "r = returned_dict m s (arg_page a) (min (arg_per_page a) 10) n tp"
    by (elim exE)
  then show ?thesis by (intro exI)
qed

lemma call_search_bound_failed:
  "invoke_bound store bound = None \<Longrightarrow>
     call_search_bound self (store, now, tool_input, bound) = self"
  by (simp add: call_search_bound_def)

lemma cache_search_results_no_images:
  "cache_search_results self now tool_input
      [ (''success'', a), (''message'', b), (''summary'', c), (''pagination'', pag) ] =
     Inr (self\<lparr>search_cache :=
         AList.update (cache_key_of tool_input)
           \<lparr> query = dict_get tool_input ''query'',
             filters = [ (''location'', dict_get tool_input ''location''),
                         (''tags'', dict_get tool_input ''tags''),
                         (''quality'', dict_get tool_input ''quality'') ],
             full_images = JList [],
             total_count = 0,
             timestamp = now,
             pagination = pag \<rparr>
           (search_cache self)\<rparr>)"
  by (simp add: cache_search_results_def dict_get_default_def py_len_def Let_def)

lemma call_search_bound_returned:
  assumes "invoke_bound store bound = Some r"
  shows "\<exists>pag.
     call_search_bound self (store, now, tool_input, bound) =
       self\<lparr>search_cache :=
         AList.update (cache_key_of tool_input)
           \<lparr> query = dict_get tool_input ''query'',
             filters = [ (''location'', dict_get tool_input ''location''),
                         (''tags'', dict_get tool_input ''tags''),
                         (''quality'', dict_get tool_input ''quality'') ],
             full_images = JList [],
             total_count = 0,
             timestamp = now,
             pagination = pag \<rparr>
           (search_cache self)\<rparr>"
proof -
  obtain m s p pp n tp where r: "r = returned_dict m s p pp n tp"
    using invoke_bound_shape [OF assms] by (elim exE)
  have "call_search_bound self (store, now, tool_input, bound) =
       self\<lparr>search_cache :=
         AList.update (cache_key_of tool_input)
           \<lparr> query = dict_get tool_input ''query'',
             filters = [ (''location'', dict_get tool_input ''location''),
                         (''tags'', dict_get tool_input ''tags''),
                         (''quality'', dict_get tool_input ''quality'') ],
             full_images = JList [],
             total_count = 0,
             timestamp = now,
             pagination = JObj [ (''page'', JInt p), (''per_page'', JInt pp),
                                 (''total'', JInt n), (''pages'', JInt tp) ] \<rparr>
           (search_cache self)\<rparr>"
    unfolding call_search_bound_def prod.case assms r returned_dict_def
      option.case json.case cache_search_results_no_images sum.case ..
  then show ?thesis by (rule exI)
qed


lemma call_search_bound_keys:
  "map fst (search_cache (call_search_bound self c)) =
     (if search_returned c \<and> cache_key_of (call_input c) \<notin> set (map fst (search_cache self))
      then map fst (search_cache self) @ [cache_key_of (call_input c)]
      else map fst (search_cache self))"
proof -
  obtain store now tool_input bound where c: "c = (store, now, tool_input, bound)"
    by (cases c) auto
  show ?thesis
  proof (cases "invoke_bound store bound")
    case None
    then show ?thesis
      by (simp add: c call_search_bound_failed search_returned_def)
  next
    case (Some r)
    from call_search_bound_returned [OF Some, where self = self and now = now and tool_input = tool_input] obtain pag where
      "call_search_bound self (store, now, tool_input, bound) =
       self\<lparr>search_cache :=
         AList.update (cache_key_of tool_input)
           \<lparr> query = dict_get tool_input ''query'',
             filters = [ (''location'', dict_get tool_input ''location''),
                         (''tags'', dict_get tool_input ''tags''),
                         (''quality'', dict_get tool_input ''quality'') ],
             full_images = JList [],
             total_count = 0,
             timestamp = now,
             pagination = pag \<rparr>
           (search_cache self)\<rparr>"
      by (elim exE)
    then show ?thesis
      using Some by (simp add: c search_returned_def call_input_def update_keys)
  qed
qed

lemma run_searches_snoc:
  "run_searches self (calls @ [c]) = call_search_bound (run_searches self calls) c"
  by (simp add: run_searches_def)

lemma run_searches_keys:
  assumes "distinct (map fst (search_cache self))"
  shows "distinct (map fst (search_cache (run_searches self calls)))
     \<and> set (map fst (search_cache (run_searches self calls)))
         = set (map fst (search_cache self))
           \<union> cache_key_of ` call_input ` set (filter search_returned calls)"
proof (induction calls rule: rev_induct)
  case Nil
  show ?case using assms by (simp add: run_searches_def)
next
  case (snoc c calls)
  let ?a = "run_searches self calls"
  have d: "distinct (map fst (search_cache ?a))"
    and k: "set (map fst (search_cache ?a))
         = set (map fst (search_cache self))
           \<union> cache_key_of ` call_input ` set (filter search_returned calls)"
    using snoc.IH by simp_all
  have d': "distinct (map fst (search_cache (call_search_bound ?a c)))"
    unfolding call_search_bound_keys using d by simp
  have k': "set (map fst (search_cache (call_search_bound ?a c)))
         = set (map fst (search_cache self))
           \<union> cache_key_of ` call_input ` set (filter search_returned (calls @ [c]))"
  proof (cases "search_returned c")
    case True
    have "set (map fst (search_cache (call_search_bound ?a c)))
            = insert (cache_key_of (call_input c)) (set (map fst (search_cache ?a)))"
      unfolding call_search_bound_keys using True by auto
    then show ?thesis unfolding k using True by auto
  next
    case False
    have "set (map fst (search_cache (call_search_bound ?a c)))
            = set (map fst (search_cache ?a))"
      unfolding call_search_bound_keys using False by simp
    then show ?thesis unfolding k using False by simp
  qed
  show ?case unfolding run_searches_snoc using d' k' by (rule conjI)
qed

lemma run_searches_length:
  "length (search_cache (run_searches new_agent calls))
     = card (cache_key_of ` call_input ` set (filter search_returned calls))"
proof -
  have e: "distinct (map fst (search_cache new_agent))" by (simp add: new_agent_def)
  from run_searches_keys [OF e, of calls]
  have d: "distinct (map fst (search_cache (run_searches new_agent calls)))"
    and k: "set (map fst (search_cache (run_searches new_agent calls)))
         = cache_key_of ` call_input ` set (filter search_returned calls)"
    by (simp_all add: new_agent_def)
  have "length (search_cache (run_searches new_agent calls))
          = length (map fst (search_cache (run_searches new_agent calls)))"
    by simp
  also have "\<dots> = card (set (map fst (search_cache (run_searches new_agent calls))))"
    using d by (rule distinct_card [symmetric])
  finally show ?thesis unfolding k .
qed

lemma call_search_bound_other_keys:
  assumes "k \<noteq> cache_key_of tool_input"
  shows "map_of (search_cache (call_search_bound self (store, now, tool_input, bound))) k
           = map_of (search_cache self) k"
proof (cases "invoke_bound store bound")
  case None
  then show ?thesis by (simp add: call_search_bound_failed)
next
  case (Some r)
  from call_search_bound_returned [OF Some, where self = self and now = now and tool_input = tool_input] obtain pag where
      "call_search_bound self (store, now, tool_input, bound) =
       self\<lparr>search_cache :=
         AList.update (cache_key_of tool_input)
           \<lparr> query = dict_get tool_input ''query'',
             filters = [ (''location'', dict_get tool_input ''location''),
                         (''tags'', dict_get tool_input ''tags''),
                         (''quality'', dict_get tool_input ''quality'') ],
             full_images = JList [],
             total_count = 0,
             timestamp = now,
             pagination = pag \<rparr>
           (search_cache self)\<rparr>"
      by (elim exE)
  then show ?thesis using assms by (simp add: update_conv')
qed

lemma call_search_bound_own_key:
  assumes "invoke_bound store bound \<noteq> None"
  shows "\<exists>e. map_of (search_cache (call_search_bound self (store, now, tool_input, bound)))
                (cache_key_of tool_input) = Some e
             \<and> timestamp e = now \<and> full_images e = JList [] \<and> total_count e = 0"
proof -
  from assms obtain r where Some: "invoke_bound store bound = Some r" by auto
  from call_search_bound_returned [OF Some, where self = self and now = now and tool_input = tool_input] obtain pag where
      "call_search_bound self (store, now, tool_input, bound) =
       self\<lparr>search_cache :=
         AList.update (cache_key_of tool_input)
           \<lparr> query = dict_get tool_input ''query'',
             filters = [ (''location'', dict_get tool_input ''location''),
                         (''tags'', dict_get tool_input ''tags''),
                         (''quality'', dict_get tool_input ''quality'') ],
             full_images = JList [],
             total_count = 0,
             timestamp = now,
             pagination = pag \<rparr>
           (search_cache self)\<rparr>"
      by (elim exE)
  then show ?thesis by (simp add: update_conv')
qed

lemma run_searches_count:
  "length (search_cache (run_searches new_agent calls))
     = card (call_params ` set (filter search_returned calls))"
proof -
  let ?S = "set (filter search_returned calls)"
  have k: "\<And>c. cache_key_of (call_input c) = json_dumps_sorted (call_params c)"
    by (simp only: cache_key_of_def call_params_def dumps_canonical)
  have "cache_key_of ` call_input ` ?S = json_dumps_sorted ` call_params ` ?S"
    by (simp only: image_image k)
  moreover have "inj_on json_dumps_sorted (call_params ` ?S)"
  proof (rule inj_on_subset [OF dumps_inj_on_canonical])
    show "call_params ` ?S \<subseteq> range canonical"
    proof
      fix x assume "x \<in> call_params ` ?S"
      then obtain c where "x = call_params c" by (elim imageE)
      then have "x = canonical (JObj (call_input c))" by (simp only: call_params_def)
      then show "x \<in> range canonical" by (rule range_eqI)
    qed
  qed
  then have "card (json_dumps_sorted ` call_params ` ?S) = card (call_params ` ?S)"
    by (rule card_image)
  ultimately show ?thesis by (simp only: run_searches_length)
qed

text \<open>
  C2, as the code has it. The cache has at most one entry per canonical key,
  and the keys tell the parameter sets apart: two dictionaries of query
  parameters have the same key exactly when their canonical forms are equal,
  which for dictionaries with distinct keys and no nested dictionary means
  that they map the same names to the same values; in particular the order
  of the items does not matter. After any run of search calls from an empty
  cache the keys are pairwise distinct and the number of entries is the number
  of distinct canonical parameter sets among the calls that returned a result.
  A call that returned leaves an entry under its key that carries the time of
  the call, and the cache grows by one entry exactly when the key was not
  present; a call that did not return leaves the cache as it was; the entries
  under other keys are as they were.
\<close>

theorem cache_one_entry_per_key:
  "(distinct (map fst ps) \<and> mset qs = mset ps \<longrightarrow> cache_key_of qs = cache_key_of ps)
   \<and> (cache_key_of ps = cache_key_of qs \<longleftrightarrow> canonical (JObj ps) = canonical (JObj qs))
   \<and> (flat_params ps \<and> flat_params qs \<longrightarrow>
        (cache_key_of ps = cache_key_of qs \<longleftrightarrow> map_of ps = map_of qs))
   \<and> distinct (map fst (search_cache (run_searches new_agent calls)))
   \<and> length (search_cache (run_searches new_agent calls))
       = card (call_params ` set (filter search_returned calls))
   \<and> (invoke_bound store bound \<noteq> None \<longrightarrow>
        (\<exists>e. map_of (search_cache (call_search_bound self (store, now, tool_input, bound)))
                 (cache_key_of tool_input) = Some e
              \<and> timestamp e = now)
        \<and> length (search_cache (call_search_bound self (store, now, tool_input, bound)))
            = (if cache_key_of tool_input \<in> set (map fst (search_cache self))
               then length (search_cache self) else Suc (length (search_cache self))))
   \<and> (invoke_bound store' bound' = None \<longrightarrow>
        call_search_bound self (store', now, tool_input, bound') = self)
   \<and> (k \<noteq> cache_key_of tool_input \<longrightarrow>
        map_of (search_cache (call_search_bound self (store, now, tool_input, bound))) k
          = map_of (search_cache self) k)"
proof -
  have a: "distinct (map fst ps) \<and> mset qs = mset ps \<longrightarrow> cache_key_of qs = cache_key_of ps"
    using cache_key_order_independent [of ps qs] by blast
  have a2: "cache_key_of ps = cache_key_of qs \<longleftrightarrow> canonical (JObj ps) = canonical (JObj qs)"
    by (rule cache_key_eq_iff)
  have a3: "flat_params ps \<and> flat_params qs \<longrightarrow>
        (cache_key_of ps = cache_key_of qs \<longleftrightarrow> map_of ps = map_of qs)"
    using cache_key_eq_iff_flat [of ps qs] by blast
  have e: "distinct (map fst (search_cache new_agent))" by (simp add: new_agent_def)
  have b: "distinct (map fst (search_cache (run_searches new_agent calls)))"
    using run_searches_keys [OF e, of calls] by (rule conjunct1)
  have c: "length (search_cache (run_searches new_agent calls))
       = card (call_params ` set (filter search_returned calls))"
    by (rule run_searches_count)
  have d: "invoke_bound store bound \<noteq> None \<longrightarrow>
        (\<exists>e. map_of (search_cache (call_search_bound self (store, now, tool_input, bound)))
                 (cache_key_of tool_input) = Some e
              \<and> timestamp e = now)
        \<and> length (search_cache (call_search_bound self (store, now, tool_input, bound)))
            = (if cache_key_of tool_input \<in> set (map fst (search_cache self))
               then length (search_cache self) else Suc (length (search_cache self)))"
  proof
    assume s: "invoke_bound store bound \<noteq> None"
    from call_search_bound_own_key [OF s, where self = self and now = now and tool_input = tool_input] obtain en where
      "map_of (search_cache (call_search_bound self (store, now, tool_input, bound)))
                 (cache_key_of tool_input) = Some en" "timestamp en = now"
      by (elim exE conjE)
    then have 1: "\<exists>e. map_of (search_cache (call_search_bound self (store, now, tool_input, bound)))
                 (cache_key_of tool_input) = Some e \<and> timestamp e = now"
      by (intro exI conjI)
    have sr: "search_returned (store, now, tool_input, bound)"
      using s by (simp add: search_returned_def)
    have "length (map fst (search_cache (call_search_bound self (store, now, tool_input, bound))))
            = (if cache_key_of tool_input \<in> set (map fst (search_cache self))
               then length (search_cache self) else Suc (length (search_cache self)))"
      unfolding call_search_bound_keys using sr by (simp add: call_input_def)
    then have 2: "length (search_cache (call_search_bound self (store, now, tool_input, bound)))
            = (if cache_key_of tool_input \<in> set (map fst (search_cache self))
               then length (search_cache self) else Suc (length (search_cache self)))"
      by simp
    from 1 2 show "(\<exists>e. map_of (search_cache (call_search_bound self (store, now, tool_input, bound)))
                 (cache_key_of tool_input) = Some e
              \<and> timestamp e = now)
        \<and> length (search_cache (call_search_bound self (store, now, tool_input, bound)))
            = (if cache_key_of tool_input \<in> set (map fst (search_cache self))
               then length (search_cache self) else Suc (length (search_cache self)))"
      by (rule conjI)
  qed
  have g: "invoke_bound store' bound' = None \<longrightarrow>
        call_search_bound self (store', now, tool_input, bound') = self"
    using call_search_bound_failed [where store = "store'" and bound = "bound'" and self = self and now = now and tool_input = tool_input] by blast
  have f: "k \<noteq> cache_key_of tool_input \<longrightarrow>
        map_of (search_cache (call_search_bound self (store, now, tool_input, bound))) k
          = map_of (search_cache self) k"
    using call_search_bound_other_keys [where k = k and tool_input = tool_input and self = self
        and store = store and now = now and bound = bound] by blast
  from a a2 a3 b c d g f show ?thesis by (intro conjI)
qed

text \<open>
  Three calls, the first two with the same parameters in a different order.
\<close>

lemma three_calls_two_entries:
  "length (search_cache (run_searches new_agent
       [ typed_call SAMPLE_IMAGES 0 [(''query'', JStr ''beach''), (''page'', JInt 2)],
         typed_call SAMPLE_IMAGES 5 [(''page'', JInt 2), (''query'', JStr ''beach'')],
         typed_call SAMPLE_IMAGES 7 [(''query'', JStr ''city'')] ])) = 2"
  by code_simp

lemma beach_call_returns:
  "invoke_bound SAMPLE_IMAGES
     (bind_search_args [(''page'', JInt 2), (''query'', JStr ''beach'')]) \<noteq> None"
  by code_simp

lemma zero_per_page_call_fails:
  "invoke_bound SAMPLE_IMAGES
     (bind_search_args [(''query'', JStr ''beach''), (''per_page'', JInt 0)]) = None"
  by code_simp

text \<open>
  The second call has the key of the first and overwrites its entry; the third
  call adds a second entry. A call in between that asks for no records per
  page raises and changes nothing.
\<close>

theorem cache_one_entry_per_key_witness:
  "distinct (map fst [(''query'', JStr ''beach''), (''page'', JInt 2)])
   \<and> mset [(''page'', JInt 2), (''query'', JStr ''beach'')]
       = mset [(''query'', JStr ''beach''), (''page'', JInt 2)]
   \<and> flat_params [(''query'', JStr ''beach''), (''page'', JInt 2)]
   \<and> flat_params [(''page'', JInt 2), (''query'', JStr ''beach'')]
   \<and> cache_key_of [(''page'', JInt 2), (''query'', JStr ''beach'')]
       = cache_key_of [(''query'', JStr ''beach''), (''page'', JInt 2)]
   \<and> map_of [(''page'', JInt 2), (''query'', JStr ''beach'')]
       = map_of [(''query'', JStr ''beach''), (''page'', JInt 2)]
   \<and> invoke_bound SAMPLE_IMAGES
        (bind_search_args [(''page'', JInt 2), (''query'', JStr ''beach'')]) \<noteq> None
   \<and> length (search_cache
         (call_search_bound
            (call_search_bound new_agent
               (typed_call SAMPLE_IMAGES 0 [(''query'', JStr ''beach''), (''page'', JInt 2)]))
            (typed_call SAMPLE_IMAGES 5 [(''page'', JInt 2), (''query'', JStr ''beach'')]))) = 1
   \<and> invoke_bound SAMPLE_IMAGES
        (bind_search_args [(''query'', JStr ''beach''), (''per_page'', JInt 0)]) = None
   \<and> call_search_bound
        (call_search_bound new_agent
           (typed_call SAMPLE_IMAGES 0 [(''query'', JStr ''beach''), (''page'', JInt 2)]))
        (SAMPLE_IMAGES, 5, [(''page'', JInt 2), (''query'', JStr ''beach'')],
         bind_search_args [(''query'', JStr ''beach''), (''per_page'', JInt 0)])
       = call_search_bound new_agent
           (typed_call SAMPLE_IMAGES 0 [(''query'', JStr ''beach''), (''page'', JInt 2)])
   \<and> cache_key_of [(''query'', JStr ''city'')]
       \<noteq> cache_key_of [(''page'', JInt 2), (''query'', JStr ''beach'')]
   \<and> map_of (search_cache
         (call_search_bound
            (call_search_bound new_agent
               (typed_call SAMPLE_IMAGES 0 [(''query'', JStr ''beach''), (''page'', JInt 2)]))
            (typed_call SAMPLE_IMAGES 5 [(''page'', JInt 2), (''query'', JStr ''beach'')])))
        (cache_key_of [(''query'', JStr ''city'')])
       = map_of (search_cache
           (call_search_bound new_agent
              (typed_call SAMPLE_IMAGES 0 [(''query'', JStr ''beach''), (''page'', JInt 2)])))
         (cache_key_of [(''query'', JStr ''city'')])
   \<and> length (search_cache (run_searches new_agent
       [ typed_call SAMPLE_IMAGES 0 [(''query'', JStr ''beach''), (''page'', JInt 2)],
         typed_call SAMPLE_IMAGES 5 [(''page'', JInt 2), (''query'', JStr ''beach'')],
         typed_call SAMPLE_IMAGES 7 [(''query'', JStr ''city'')] ])) = 2"
proof -
  let ?cs = "[(''query'', JStr ''city'')]"
  let ?ps = "[(''query'', JStr ''beach''), (''page'', JInt 2)]"
  let ?qs = "[(''page'', JInt 2), (''query'', JStr ''beach'')]"
  let ?zs = "[(''query'', JStr ''beach''), (''per_page'', JInt 0)]"
  let ?a = "call_search_bound new_agent (typed_call SAMPLE_IMAGES 0 ?ps)"
  have h1: "distinct (map fst ?ps)" by simp
  have h2: "mset ?qs = mset ?ps" by (simp add: add.commute)
  have f1: "flat_params ?ps" by (simp add: flat_params_def)
  have f2: "flat_params ?qs" by (simp add: flat_params_def)
  have h3: "invoke_bound SAMPLE_IMAGES (bind_search_args ?qs) \<noteq> None"
    by (rule beach_call_returns)
  have h4: "invoke_bound SAMPLE_IMAGES (bind_search_args ?zs) = None"
    by (rule zero_per_page_call_fails)
  note t = cache_one_entry_per_key [of ?ps ?qs "[]" SAMPLE_IMAGES "bind_search_args ?qs" ?a 5 ?qs
      SAMPLE_IMAGES "bind_search_args ?zs" "cache_key_of ?cs"]
  from t h1 h2 have key: "cache_key_of ?qs = cache_key_of ?ps" by blast
  from t f1 f2 have "cache_key_of ?ps = cache_key_of ?qs \<longleftrightarrow> map_of ?ps = map_of ?qs"
    by blast
  then have maps: "map_of ?qs = map_of ?ps" using key by simp
  have one: "length (search_cache ?a) = 1" by code_simp
  have "cache_key_of ?ps \<in> set (map fst (search_cache ?a))" by code_simp
  then have mem: "cache_key_of ?qs \<in> set (map fst (search_cache ?a))" by (simp only: key)
  from t h3 have "length (search_cache (call_search_bound ?a (SAMPLE_IMAGES, 5, ?qs, bind_search_args ?qs)))
            = (if cache_key_of ?qs \<in> set (map fst (search_cache ?a))
               then length (search_cache ?a) else Suc (length (search_cache ?a)))"
    by blast
  then have "length (search_cache (call_search_bound ?a (SAMPLE_IMAGES, 5, ?qs, bind_search_args ?qs))) = 1"
    using mem one by simp
  then have two: "length (search_cache (call_search_bound ?a (typed_call SAMPLE_IMAGES 5 ?qs))) = 1"
    by (simp only: typed_call_def)
  from t h4 have same: "call_search_bound ?a (SAMPLE_IMAGES, 5, ?qs, bind_search_args ?zs) = ?a"
    by blast
  have ne: "cache_key_of ?cs \<noteq> cache_key_of ?qs" by code_simp
  from t ne have "map_of (search_cache (call_search_bound ?a (SAMPLE_IMAGES, 5, ?qs, bind_search_args ?qs)))
        (cache_key_of ?cs) = map_of (search_cache ?a) (cache_key_of ?cs)"
    by blast
  then have other: "map_of (search_cache (call_search_bound ?a (typed_call SAMPLE_IMAGES 5 ?qs)))
        (cache_key_of ?cs) = map_of (search_cache ?a) (cache_key_of ?cs)"
    by (simp only: typed_call_def)
  from h1 h2 f1 f2 key maps h3 two h4 same ne other three_calls_two_entries show ?thesis
    by (intro conjI)
qed

text \<open>
  C2 as stated fails: not every search leaves an entry. The agent calls the
  tool inside \<^verbatim>\<open>try\<close> and caches after the call returned. A search with
  \<^verbatim>\<open>per_page = 0\<close> raises \<^verbatim>\<open>ZeroDivisionError\<close>, the \<^verbatim>\<open>except\<close> clause takes
  over, and the cache stays empty although one parameter set was searched.
\<close>

theorem failed_search_leaves_no_entry:
  "search_images_paginated SAMPLE_IMAGES ''beach'' None None None 1 0 = Inl ZeroDivisionError
   \<and> bind_search_args [(''query'', JStr ''beach''), (''per_page'', JInt 0)]
       = Some \<lparr> arg_query = ''beach'', arg_location = None, arg_tags = None,
                arg_quality = None, arg_page = 1, arg_per_page = 0 \<rparr>
   \<and> length (search_cache (run_searches new_agent
        [ typed_call SAMPLE_IMAGES 0 [(''query'', JStr ''beach''), (''per_page'', JInt 0)] ])) = 0
   \<and> card (call_params `
        set [ typed_call SAMPLE_IMAGES 0 [(''query'', JStr ''beach''), (''per_page'', JInt 0)] ]) = 1"
proof -
  have 1: "search_images_paginated SAMPLE_IMAGES ''beach'' None None None 1 0
             = Inl ZeroDivisionError"
    by (simp add: search_images_paginated_zero)
  have 2: "bind_search_args [(''query'', JStr ''beach''), (''per_page'', JInt 0)]
       = Some \<lparr> arg_query = ''beach'', arg_location = None, arg_tags = None,
                arg_quality = None, arg_page = 1, arg_per_page = 0 \<rparr>"
    by code_simp
  have 3: "length (search_cache (run_searches new_agent
        [ typed_call SAMPLE_IMAGES 0 [(''query'', JStr ''beach''), (''per_page'', JInt 0)] ])) = 0"
    by code_simp
  have 4: "card (call_params `
        set [ typed_call SAMPLE_IMAGES 0 [(''query'', JStr ''beach''), (''per_page'', JInt 0)] ]) = 1"
    by simp
  from 1 2 3 4 show ?thesis by (intro conjI)
qed

subsection \<open>What a search stores\<close>

text \<open>
  C1 at a concrete call. The search for \<^verbatim>\<open>beach\<close> with two records per page
  has three matches, and its result reports the total 3. The dictionary that
  the tool returns has no key \<^verbatim>\<open>images\<close>, so
  \<^verbatim>\<open>result_data.get('images', [])\<close> is the empty list: the entry stored for
  the call has \<^verbatim>\<open>full_images\<close> of length 0 and \<^verbatim>\<open>total_count\<close> 0, not 3.
\<close>

theorem cached_entry_holds_no_images:
  "map (\<lambda>(k, e). (full_images e, total_count e, pagination e))
     (search_cache (call_search_tool new_agent
        (SAMPLE_IMAGES, 0, [(''query'', JStr ''beach''), (''per_page'', JInt 2), (''page'', JInt 1)])))
     = [(JList [], 0,
         JObj [ (''page'', JInt 1), (''per_page'', JInt 2),
                (''total'', JInt 3), (''pages'', JInt 2) ])]
   \<and> length (search_results SAMPLE_IMAGES ''beach'' None None None) = 3"
proof -
  have "map (\<lambda>(k, e). (full_images e, total_count e, pagination e))
     (search_cache (call_search_tool new_agent
        (SAMPLE_IMAGES, 0, [(''query'', JStr ''beach''), (''per_page'', JInt 2), (''page'', JInt 1)])))
     = [(JList [], 0,
         JObj [ (''page'', JInt 1), (''per_page'', JInt 2),
                (''total'', JInt 3), (''pages'', JInt 2) ])]"
    by code_simp
  then show ?thesis using beach_results_length by (rule conjI)
qed

text \<open>
  The same holds of every entry that a run of search calls can store.
\<close>

lemma run_searches_entries_empty:
  "e \<in> snd ` set (search_cache (run_searches new_agent calls))
     \<Longrightarrow> full_images e = JList [] \<and> total_count e = 0"
proof (induction calls arbitrary: e rule: rev_induct)
  case Nil
  then show ?case by (simp add: run_searches_def new_agent_def)
next
  case (snoc c calls)
  obtain store now tool_input bound where c: "c = (store, now, tool_input, bound)"
    by (cases c) auto
  let ?a = "run_searches new_agent calls"
  from snoc.prems obtain k where
    k: "(k, e) \<in> set (search_cache (call_search_bound ?a (store, now, tool_input, bound)))"
    unfolding run_searches_snoc c by auto
  have d: "distinct (map fst (search_cache (call_search_bound ?a (store, now, tool_input, bound))))"
    using run_searches_keys [of new_agent "calls @ [c]"] unfolding run_searches_snoc c by (simp add: new_agent_def)
  then have m: "map_of (search_cache (call_search_bound ?a (store, now, tool_input, bound))) k = Some e"
    using k by simp
  show ?case
  proof (cases "k = cache_key_of tool_input \<and> invoke_bound store bound \<noteq> None")
    case True
    then show ?thesis
      using call_search_bound_own_key [where store = store and bound = bound and self = "?a" and now = now and tool_input = tool_input] m by auto
  next
    case False
    have "map_of (search_cache ?a) k = Some e"
    proof (cases "k = cache_key_of tool_input")
      case True
      with False have "invoke_bound store bound = None" by simp
      then show ?thesis using m by (simp add: call_search_bound_failed)
    next
      case False
      then show ?thesis using m call_search_bound_other_keys [OF False] by simp
    qed
    then have "e \<in> snd ` set (search_cache ?a)"
      by (metis map_of_SomeD image_eqI snd_conv)
    then show ?thesis by (rule snoc.IH)
  qed
qed

subsection \<open>Rounding\<close>

lemma pow2_bitlen:
  assumes "0 < n"
  shows "(2::rat) powi (bitlen n - 1) \<le> of_int n" "of_int n < (2::rat) powi (bitlen n)"
proof -
  have b: "2 ^ nat (bitlen n - 1) \<le> n" "n < 2 ^ nat (bitlen n)"
    using bitlen_bounds [OF assms] by simp_all
  have p: "1 \<le> bitlen n" using assms by (simp add: bitlen_alt_def)
  have "(of_int (2 ^ nat (bitlen n - 1)) :: rat) \<le> of_int n"
    using b(1) by (simp only: of_int_le_iff)
  moreover have "(2::rat) powi (bitlen n - 1) = 2 ^ nat (bitlen n - 1)"
    using p by (simp add: power_int_def)
  ultimately show "(2::rat) powi (bitlen n - 1) \<le> of_int n" by simp
  have "(of_int n :: rat) < of_int (2 ^ nat (bitlen n))"
    using b(2) by (simp only: of_int_less_iff)
  moreover have "(2::rat) powi (bitlen n) = 2 ^ nat (bitlen n)"
    using p by (simp add: power_int_def)
  ultimately show "of_int n < (2::rat) powi (bitlen n)" by simp
qed

lemma binade_bounds:
  assumes "0 < x"
  shows "2 powi (binade x) \<le> x" "x < 2 powi (binade x + 1)"
proof -
  obtain n d where q: "quotient_of x = (n, d)" by (cases "quotient_of x")
  have d: "0 < d" using q by (rule quotient_of_denom_pos)
  have x: "x = of_int n / of_int d" using q by (rule quotient_of_div)
  have n: "0 < n" using assms d unfolding x by (simp add: zero_less_divide_iff)
  define e0 where "e0 = bitlen n - bitlen d"
  have dr: "(0::rat) < of_int d" using d by simp
  have lo: "2 powi (e0 - 1) \<le> x"
  proof -
    have "(2::rat) powi (e0 - 1) * of_int d \<le> 2 powi (e0 - 1) * 2 powi (bitlen d)"
      using pow2_bitlen(2) [OF d] by (intro mult_left_mono) simp_all
    also have "\<dots> = 2 powi (bitlen n - 1)"
      unfolding e0_def by (simp add: power_int_add [symmetric])
    also have "\<dots> \<le> of_int n" by (rule pow2_bitlen(1) [OF n])
    finally show ?thesis unfolding x using dr by (simp add: pos_le_divide_eq)
  qed
  have hi: "x < 2 powi (e0 + 1)"
  proof -
    have "(of_int n :: rat) < 2 powi (bitlen n)" by (rule pow2_bitlen(2) [OF n])
    also have "\<dots> = 2 powi (e0 + 1) * 2 powi (bitlen d - 1)"
      unfolding e0_def by (simp add: power_int_add [symmetric])
    also have "\<dots> \<le> 2 powi (e0 + 1) * of_int d"
      using pow2_bitlen(1) [OF d] by (intro mult_left_mono) simp_all
    finally show ?thesis unfolding x using dr by (simp add: pos_divide_less_eq)
  qed
  have b: "binade x = (if 2 powi e0 \<le> x then e0 else e0 - 1)"
    by (simp add: binade_def q e0_def Let_def)
  show "2 powi (binade x) \<le> x" unfolding b using lo by simp
  show "x < 2 powi (binade x + 1)" unfolding b using hi by (simp add: not_le)
qed

lemma round_half_even_ge_floor: "\<lfloor>y\<rfloor> \<le> round_half_even y"
  by (simp add: round_half_even_def Let_def)

lemma round_half_even_ge_int:
  assumes "of_int k \<le> y"
  shows "k \<le> round_half_even y"
proof -
  have "k \<le> \<lfloor>y\<rfloor>" using assms by (simp add: le_floor_iff)
  then show ?thesis using round_half_even_ge_floor [of y] by linarith
qed

lemma round_half_even_upper: "of_int (round_half_even y) \<le> y + 1 / 2"
proof -
  define f where "f = \<lfloor>y\<rfloor>"
  define r where "r = y - of_int f"
  have f: "of_int f \<le> y" unfolding f_def by simp
  have rh: "round_half_even y =
     (if r < 1 / 2 then f else if 1 / 2 < r then f + 1 else if even f then f else f + 1)"
    by (simp add: round_half_even_def Let_def f_def r_def)
  consider "r < 1 / 2" | "1 / 2 \<le> r" by linarith
  then show ?thesis
  proof cases
    case 1
    then have "round_half_even y = f" by (simp add: rh)
    then show ?thesis using f by simp
  next
    case 2
    have "round_half_even y \<le> f + 1" by (simp add: rh)
    then have "(of_int (round_half_even y) :: rat) \<le> of_int (f + 1)"
      by (simp only: of_int_le_iff)
    also have "\<dots> = of_int f + 1" by simp
    also have "\<dots> \<le> y + 1 / 2" using 2 unfolding r_def by linarith
    finally show ?thesis .
  qed
qed

lemma round_double_pos:
  assumes "0 < x"
  shows "round_double x = of_int (round_half_even (x / 2 powi (binade x - 52)))
                            * 2 powi (binade x - 52)"
  using assms by (simp add: round_double_def Let_def)

lemma round_double_neg:
  assumes "x < 0"
  shows "round_double x = - round_double (- x)"
  using assms by (simp add: round_double_def Let_def)

lemma round_double_pos_nonneg:
  assumes "0 < x"
  shows "0 \<le> round_double x"
proof -
  let ?q = "(2::rat) powi (binade x - 52)"
  have q: "0 < ?q" by simp
  have "0 \<le> x / ?q" using assms q by simp
  then have "of_int 0 \<le> x / ?q" by simp
  then have "0 \<le> round_half_even (x / ?q)" by (rule round_half_even_ge_int)
  then have "(0::rat) \<le> of_int (round_half_even (x / ?q))" by simp
  then show ?thesis unfolding round_double_pos [OF assms] using q by simp
qed

lemma round_double_nonpos:
  assumes "x \<le> 0"
  shows "round_double x \<le> 0"
proof (cases "x = 0")
  case True
  then show ?thesis by (simp add: round_double_def)
next
  case False
  then have n: "x < 0" using assms by simp
  then have "0 \<le> round_double (- x)" by (intro round_double_pos_nonneg) simp
  then show ?thesis unfolding round_double_neg [OF n] by simp
qed

lemma pow2_shift: "(2::rat) powi (e - 52) * 2 ^ 52 = 2 powi e"
proof -
  have "(2::rat) powi (e - 52 + 52) = 2 powi (e - 52) * 2 powi 52"
    by (rule power_int_add) simp
  then show ?thesis by simp
qed

lemma round_double_upper:
  assumes "0 < x"
  shows "round_double x \<le> x * (1 + 1 / 2 ^ 53)"
proof -
  define q where "q = (2::rat) powi (binade x - 52)"
  have q: "0 < q" unfolding q_def by simp
  have "of_int (round_half_even (x / q)) \<le> x / q + 1 / 2"
    by (rule round_half_even_upper)
  then have "of_int (round_half_even (x / q)) * q \<le> (x / q + 1 / 2) * q"
    using q by (intro mult_right_mono) simp_all
  also have "\<dots> = x + q / 2" using q by (simp add: distrib_right)
  finally have 1: "round_double x \<le> x + q / 2"
    unfolding round_double_pos [OF assms] q_def .
  have "q * 2 ^ 52 = 2 powi (binade x)" unfolding q_def by (rule pow2_shift)
  also have "\<dots> \<le> x" by (rule binade_bounds(1) [OF assms])
  finally have "q * 2 ^ 52 \<le> x" .
  then have "q / 2 \<le> x / 2 ^ 53" by simp
  with 1 have "round_double x \<le> x + x / 2 ^ 53" by linarith
  also have "\<dots> = x * (1 + 1 / 2 ^ 53)" by (simp add: distrib_left)
  finally show ?thesis .
qed


lemma round_double_ge_int:
  assumes n: "0 < n" "n < 2 ^ 53" and le: "of_int n \<le> y"
  shows "of_int n \<le> round_double y"
proof -
  have "(0::rat) < of_int n" using n(1) by simp
  then have ypos: "0 < y" using le by linarith
  define e where "e = binade y"
  define q where "q = (2::rat) powi (e - 52)"
  have q: "0 < q" unfolding q_def by simp
  have rd: "round_double y = of_int (round_half_even (y / q)) * q"
    unfolding q_def e_def by (rule round_double_pos [OF ypos])
  have sh: "q * 2 ^ 52 = 2 powi e" unfolding q_def by (rule pow2_shift)
  show ?thesis
  proof (cases "e \<le> 52")
    case True
    define m where "m = nat (52 - e)"
    define k where "k = n * 2 ^ m"
    have "(2::rat) powi (e - 52 + int m) = 2 powi (e - 52) * 2 powi (int m)"
      by (rule power_int_add) simp
    moreover have "e - 52 + int m = 0" unfolding m_def using True by simp
    ultimately have qm: "q * 2 ^ m = 1" unfolding q_def by simp
    have "of_int k * q = of_int n * (q * 2 ^ m)" unfolding k_def by simp
    then have kq: "of_int k * q = of_int n" unfolding qm by simp
    have "of_int k * q \<le> y" unfolding kq by (rule le)
    then have "of_int k \<le> y / q" using q by (simp add: pos_le_divide_eq)
    then have "k \<le> round_half_even (y / q)" by (rule round_half_even_ge_int)
    then have "(of_int k :: rat) \<le> of_int (round_half_even (y / q))"
      by (simp only: of_int_le_iff)
    then have "of_int k * q \<le> of_int (round_half_even (y / q)) * q"
      using q by (intro mult_right_mono) simp_all
    then show ?thesis unfolding rd kq .
  next
    case False
    then have e: "53 \<le> e" by simp
    have "of_int (2 ^ 52) * q = 2 powi e" using sh by (simp add: mult.commute)
    also have "\<dots> \<le> y" unfolding e_def by (rule binade_bounds(1) [OF ypos])
    finally have "of_int (2 ^ 52) \<le> y / q" using q by (simp add: pos_le_divide_eq)
    then have "2 ^ 52 \<le> round_half_even (y / q)" by (rule round_half_even_ge_int)
    then have "(of_int (2 ^ 52) :: rat) \<le> of_int (round_half_even (y / q))"
      by (simp only: of_int_le_iff)
    then have "of_int (2 ^ 52) * q \<le> of_int (round_half_even (y / q)) * q"
      using q by (intro mult_right_mono) simp_all
    moreover have "of_int (2 ^ 52) * q = 2 powi e" using sh by (simp add: mult.commute)
    ultimately have 1: "2 powi e \<le> round_double y" unfolding rd by simp
    have "(of_int n :: rat) < of_int (2 ^ 53)" using n(2) by (simp only: of_int_less_iff)
    also have "\<dots> = 2 powi 53" by simp
    also have "\<dots> \<le> 2 powi e" using e by (intro power_int_increasing) simp_all
    finally show ?thesis using 1 by linarith
  qed
qed

lemma float_age_below:
  fixes m T :: int
  assumes T: "1 \<le> T" "T \<le> 1000000" and m: "m < T * 60000000"
  shows "round_double (round_double (of_int m / 1000000) / 60) < of_int T"
proof -
  define x :: rat where "x = of_int m / 1000000"
  define a where "a = round_double x"
  have Tpos: "(0::rat) < of_int T" using T(1) by simp
  show ?thesis
  proof (cases "0 < a")
    case False
    then have "a / 60 \<le> 0" by simp
    then have "round_double (a / 60) \<le> 0" by (rule round_double_nonpos)
    then show ?thesis unfolding a_def x_def using Tpos by linarith
  next
    case True
    have xpos: "0 < x"
    proof (rule ccontr)
      assume "\<not> 0 < x"
      then have "round_double x \<le> 0" by (intro round_double_nonpos) simp
      then show False using True unfolding a_def by simp
    qed
    have "m + 1 \<le> T * 60000000" using m by simp
    then have "(of_int (m + 1) :: rat) \<le> of_int (T * 60000000)"
      by (simp only: of_int_le_iff)
    then have mx: "(of_int m :: rat) + 1 \<le> of_int T * 60000000" by simp
    have xb: "x + 1 / 1000000 \<le> 60 * of_int T"
      unfolding x_def using mx by (simp add: field_simps)
    have "(of_int T :: rat) \<le> of_int 1000000" using T(2) by (simp only: of_int_le_iff)
    then have xs: "x \<le> 60000000" using xb by simp
    have a_le: "a \<le> x * (1 + 1 / 2 ^ 53)"
      unfolding a_def by (rule round_double_upper [OF xpos])
    have bpos: "0 < a / 60" using True by simp
    have "round_double (a / 60) \<le> a / 60 * (1 + 1 / 2 ^ 53)"
      by (rule round_double_upper [OF bpos])
    also have "\<dots> \<le> x * (1 + 1 / 2 ^ 53) / 60 * (1 + 1 / 2 ^ 53)"
      using a_le by (intro mult_right_mono divide_right_mono) simp_all
    also have "\<dots> = x * ((1 + 1 / 2 ^ 53) * (1 + 1 / 2 ^ 53)) / 60" by simp
    also have "\<dots> \<le> x * (1 + 1 / 2 ^ 51) / 60"
      using xpos by (intro divide_right_mono mult_left_mono) simp_all
    also have "\<dots> = (x + x / 2 ^ 51) / 60" by (simp add: distrib_left)
    also have "\<dots> \<le> (x + 60000000 / 2 ^ 51) / 60"
      using xs by (intro divide_right_mono add_left_mono) simp_all
    also have "\<dots> < (x + 1 / 1000000) / 60" by simp
    also have "\<dots> \<le> 60 * of_int T / 60"
      using xb by (intro divide_right_mono) simp_all
    also have "\<dots> = of_int T" by simp
    finally show ?thesis unfolding a_def x_def .
  qed
qed

lemma float_age_not_below:
  fixes m T :: int
  assumes T: "1 \<le> T" "T \<le> 1000000" and m: "T * 60000000 \<le> m"
  shows "of_int T \<le> round_double (round_double (of_int m / 1000000) / 60)"
proof -
  define x :: rat where "x = of_int m / 1000000"
  have "(of_int (T * 60000000) :: rat) \<le> of_int m" using m by (simp only: of_int_le_iff)
  then have "(of_int (60 * T) :: rat) \<le> x" unfolding x_def by simp
  moreover have "0 < 60 * T" using T(1) by simp
  moreover have "60 * T < 2 ^ 53" using T(2) by simp
  ultimately have "(of_int (60 * T) :: rat) \<le> round_double x"
    by (intro round_double_ge_int)
  then have "(of_int T :: rat) \<le> round_double x / 60" by simp
  moreover have "0 < T" using T(1) by simp
  moreover have "T < 2 ^ 53" using T(2) by simp
  ultimately show ?thesis unfolding x_def by (intro round_double_ge_int)
qed

lemma float_age_test:
  fixes m T :: int
  assumes "1 \<le> T" "T \<le> 1000000"
  shows "round_double (round_double (of_int m / 1000000) / 60) < of_int T
           \<longleftrightarrow> m < T * 60000000"
proof
  assume l: "round_double (round_double (of_int m / 1000000) / 60) < of_int T"
  show "m < T * 60000000"
  proof (rule ccontr)
    assume "\<not> m < T * 60000000"
    then have "T * 60000000 \<le> m" by simp
    from float_age_not_below [OF assms this] l show False by simp
  qed
next
  assume "m < T * 60000000"
  then show "round_double (round_double (of_int m / 1000000) / 60) < of_int T"
    by (rule float_age_below [OF assms])
qed

lemma is_cache_valid_micro:
  assumes "1 \<le> cache_ttl_minutes self" "cache_ttl_minutes self \<le> 1000000"
  shows "is_cache_valid self now ts \<longleftrightarrow> now - ts < cache_ttl_minutes self * 60000000"
  unfolding is_cache_valid_def elapsed_minutes_def by (rule float_age_test [OF assms])

lemma max_by_timestamp_mem: "max_by_timestamp b cs \<in> set (b # cs)"
  by (induction cs arbitrary: b) auto

lemma get_last_Some:
  assumes "get_last_search_results self now = Some e"
  shows "e \<in> snd ` set (search_cache self) \<and> is_cache_valid self now (timestamp e)"
proof -
  let ?valid = "filter (\<lambda>c. is_cache_valid self now (timestamp c)) (map snd (search_cache self))"
  from assms obtain c cs where v: "?valid = c # cs" and e: "e = max_by_timestamp c cs"
    by (auto simp: get_last_search_results_def Let_def split: if_splits list.splits)
  have "e \<in> set ?valid" unfolding v e by (rule max_by_timestamp_mem)
  then show ?thesis by auto
qed

lemma get_last_None:
  "get_last_search_results self now = None
     \<longleftrightarrow> filter (\<lambda>c. is_cache_valid self now (timestamp c)) (map snd (search_cache self)) = []"
  by (auto simp: get_last_search_results_def Let_def split: list.splits)

lemma scan_entries_skips_expired:
  "scan_entries self now ids es acc
     = scan_entries self now ids (filter (\<lambda>c. is_cache_valid self now (timestamp c)) es) acc"
  by (induction es arbitrary: acc) (simp_all split: sum.splits)

lemma cache_search_results_other_keys:
  assumes "cache_search_results self now p r = Inr self'" "k \<noteq> cache_key_of p"
  shows "map_of (search_cache self') k = map_of (search_cache self) k"
  using assms
  by (auto simp: cache_search_results_def Let_def update_conv' split: sum.splits)

lemma id_requested_obj:
  "id_requested ids (JObj d) \<longleftrightarrow> dict_get d ''id'' \<in> set (map JStr ids)"
  by (simp add: id_requested_def)

lemma scan_images_dicts:
  "list_all is_dict imgs \<Longrightarrow>
     scan_images ids imgs acc = Inr (acc @ filter (id_requested ids) imgs)"
proof (induction imgs arbitrary: acc)
  case Nil
  show ?case by simp
next
  case (Cons img imgs)
  from Cons.prems have i: "is_dict img" and r: "list_all is_dict imgs"
    by simp_all
  from i obtain d where d: "img = JObj d"
    by (cases img) (simp_all add: is_dict_def)
  show ?case
    unfolding d using Cons.IH [OF r]
    by (simp add: img_get_id_def id_requested_obj)
qed

lemma scan_entries_well_formed:
  "list_all entry_well_formed (filter (\<lambda>c. is_cache_valid self now (timestamp c)) es) \<Longrightarrow>
     scan_entries self now ids es acc
       = Inr (acc @ concat (map (\<lambda>e. filter (id_requested ids) (listed_images e))
                            (filter (\<lambda>c. is_cache_valid self now (timestamp c)) es)))"
proof (induction es arbitrary: acc)
  case Nil
  show ?case by simp
next
  case (Cons e es)
  show ?case
  proof (cases "is_cache_valid self now (timestamp e)")
    case False
    then show ?thesis using Cons by simp
  next
    case True
    with Cons.prems have wf: "entry_well_formed e"
      and rest: "list_all entry_well_formed
                   (filter (\<lambda>c. is_cache_valid self now (timestamp c)) es)"
      by simp_all
    from wf obtain xs where xs: "full_images e = JList xs" and ds: "list_all is_dict xs"
      by (cases "full_images e") (simp_all add: entry_well_formed_def)
    have li: "listed_images e = xs" by (simp add: listed_images_def xs)
    show ?thesis
      using True Cons.IH [OF rest]
      by (simp add: xs li py_iter_def scan_images_dicts [OF ds])
  qed
qed

subsection \<open>Validity and retrieval\<close>

text \<open>
  C5. An entry with timestamp \<open>ts\<close> is valid at \<open>now\<close> exactly when the
  elapsed minutes, as the two float divisions give them, are strictly below
  \<^verbatim>\<open>cache_ttl_minutes\<close>; the TTL of a new agent is 30. For a TTL from 1 to
  \<open>10 ^ 6\<close> minutes the rounding of the divisions does not reach the comparison:
  the entry is valid exactly when \<open>now - ts\<close> is less than the TTL in
  microseconds, so it is valid at \<open>ts + TTL - eps\<close> for every positive \<open>eps\<close>
  and invalid at \<open>ts + TTL + eps\<close> for every \<open>eps\<close> from zero on. Retrieval
  leaves expired entries out: the latest search result is a valid entry of the
  cache, there is none exactly when no entry is valid, and the lookup by ids
  scans the valid entries only. Storage keeps them: retrieval returns no new
  cache, and storing a result leaves the entry under every other key as it was,
  expired or not.
\<close>

theorem cache_valid_iff_age_below_ttl:
  "(is_cache_valid self now ts \<longleftrightarrow> elapsed_minutes now ts < of_int (cache_ttl_minutes self))
   \<and> elapsed_minutes now ts = round_double (round_double (of_int (now - ts) / 1000000) / 60)
   \<and> cache_ttl_minutes new_agent = 30
   \<and> (1 \<le> cache_ttl_minutes self \<and> cache_ttl_minutes self \<le> 1000000 \<longrightarrow>
        (is_cache_valid self now ts \<longleftrightarrow> now - ts < cache_ttl_minutes self * 60000000)
        \<and> (0 < eps \<longrightarrow>
              is_cache_valid self (ts + cache_ttl_minutes self * 60000000 - eps) ts)
        \<and> (0 \<le> eps \<longrightarrow>
              \<not> is_cache_valid self (ts + cache_ttl_minutes self * 60000000 + eps) ts))
   \<and> (get_last_search_results self now = Some e \<longrightarrow>
         e \<in> snd ` set (search_cache self) \<and> is_cache_valid self now (timestamp e))
   \<and> (get_last_search_results self now = None \<longleftrightarrow>
         (\<forall>c \<in> snd ` set (search_cache self). \<not> is_cache_valid self now (timestamp c)))
   \<and> get_cached_images self now image_ids
       = scan_entries self now image_ids
           (filter (\<lambda>c. is_cache_valid self now (timestamp c)) (map snd (search_cache self))) []
   \<and> (cache_search_results self now query_params result_data = Inr self'
         \<and> k \<noteq> cache_key_of query_params \<longrightarrow>
         map_of (search_cache self') k = map_of (search_cache self) k)"
proof -
  have a: "is_cache_valid self now ts \<longleftrightarrow> elapsed_minutes now ts < of_int (cache_ttl_minutes self)"
    by (simp add: is_cache_valid_def)
  have a': "elapsed_minutes now ts = round_double (round_double (of_int (now - ts) / 1000000) / 60)"
    by (simp add: elapsed_minutes_def)
  have c: "cache_ttl_minutes new_agent = 30" by (simp add: new_agent_def)
  have b: "1 \<le> cache_ttl_minutes self \<and> cache_ttl_minutes self \<le> 1000000 \<longrightarrow>
        (is_cache_valid self now ts \<longleftrightarrow> now - ts < cache_ttl_minutes self * 60000000)
        \<and> (0 < eps \<longrightarrow>
              is_cache_valid self (ts + cache_ttl_minutes self * 60000000 - eps) ts)
        \<and> (0 \<le> eps \<longrightarrow>
              \<not> is_cache_valid self (ts + cache_ttl_minutes self * 60000000 + eps) ts)"
  proof
    assume "1 \<le> cache_ttl_minutes self \<and> cache_ttl_minutes self \<le> 1000000"
    then have t: "1 \<le> cache_ttl_minutes self" "cache_ttl_minutes self \<le> 1000000"
      by simp_all
    note m = is_cache_valid_micro [OF t]
    have 1: "is_cache_valid self now ts \<longleftrightarrow> now - ts < cache_ttl_minutes self * 60000000"
      by (rule m)
    have 2: "0 < eps \<longrightarrow>
              is_cache_valid self (ts + cache_ttl_minutes self * 60000000 - eps) ts"
      unfolding m by simp
    have 3: "0 \<le> eps \<longrightarrow>
              \<not> is_cache_valid self (ts + cache_ttl_minutes self * 60000000 + eps) ts"
      unfolding m by simp
    from 1 2 3 show "(is_cache_valid self now ts \<longleftrightarrow> now - ts < cache_ttl_minutes self * 60000000)
        \<and> (0 < eps \<longrightarrow>
              is_cache_valid self (ts + cache_ttl_minutes self * 60000000 - eps) ts)
        \<and> (0 \<le> eps \<longrightarrow>
              \<not> is_cache_valid self (ts + cache_ttl_minutes self * 60000000 + eps) ts)"
      by (intro conjI)
  qed
  have f: "get_last_search_results self now = Some e \<longrightarrow>
         e \<in> snd ` set (search_cache self) \<and> is_cache_valid self now (timestamp e)"
    using get_last_Some [of self now e] by blast
  have g: "get_last_search_results self now = None \<longleftrightarrow>
         (\<forall>c \<in> snd ` set (search_cache self). \<not> is_cache_valid self now (timestamp c))"
    unfolding get_last_None by (simp add: filter_empty_conv)
  have h: "get_cached_images self now image_ids
       = scan_entries self now image_ids
           (filter (\<lambda>c. is_cache_valid self now (timestamp c)) (map snd (search_cache self))) []"
    unfolding get_cached_images_def by (rule scan_entries_skips_expired)
  have i: "cache_search_results self now query_params result_data = Inr self'
         \<and> k \<noteq> cache_key_of query_params \<longrightarrow>
         map_of (search_cache self') k = map_of (search_cache self) k"
    using cache_search_results_other_keys [of self now query_params result_data self' k] by blast
  from a a' c b f g h i show ?thesis by (intro conjI)
qed

text \<open>
  Beyond such a bound the rounding does reach the comparison: with a TTL of
  \<open>10 ^ 9\<close> minutes an entry whose age is one microsecond less than the TTL has
  its elapsed minutes rounded up to the TTL and is not valid.
\<close>

lemma large_ttl_rounds_up:
  "elapsed_minutes (1000000000 * 60000000 - 1) 0 = 1000000000
   \<and> \<not> is_cache_valid (new_agent\<lparr>cache_ttl_minutes := 1000000000\<rparr>)
          (1000000000 * 60000000 - 1) 0"
  by code_simp

text \<open>The example cache, written out.\<close>

lemma overlapping_agent_eq:
  "overlapping_agent =
     \<lparr> search_cache =
         [ (cache_key_of [(''query'', JStr ''beach'')],
            \<lparr> query = JStr ''beach'',
              filters = [(''location'', JNull), (''tags'', JNull), (''quality'', JNull)],
              full_images = JList [img_001_dict], total_count = 1, timestamp = 0,
              pagination = JObj [] \<rparr>),
           (cache_key_of [(''query'', JStr ''sunset'')],
            \<lparr> query = JStr ''sunset'',
              filters = [(''location'', JNull), (''tags'', JNull), (''quality'', JNull)],
              full_images = JList [img_001_dict], total_count = 1, timestamp = 60000000,
              pagination = JObj [] \<rparr>) ],
       cache_ttl_minutes = 30 \<rparr>"
proof -
  have ne: "cache_key_of [(''query'', JStr ''beach'')] \<noteq> cache_key_of [(''query'', JStr ''sunset'')]"
    by code_simp
  show ?thesis
    unfolding overlapping_agent_def cache_search_results_def Let_def
    using ne by (simp add: dict_get_default_def dict_get_def py_len_def new_agent_def)
qed

lemma is_cache_valid_ttl30:
  assumes "cache_ttl_minutes self = 30"
  shows "is_cache_valid self now ts \<longleftrightarrow> now - ts < 1800000000"
proof -
  have "is_cache_valid self now ts \<longleftrightarrow> now - ts < cache_ttl_minutes self * 60000000"
    by (rule is_cache_valid_micro) (simp_all add: assms)
  then show ?thesis unfolding assms by simp
qed

text \<open>
  The entry stored at minute 1 is valid one microsecond before minute 31 and
  invalid at minute 31 and after; at minute 30 the latest valid entry is this
  one, at minute 31 there is none, and both entries are still stored.
\<close>

theorem cache_valid_iff_age_below_ttl_witness:
  "(0::int) < 1
   \<and> is_cache_valid overlapping_agent (60000000 + 30 * 60000000 - 1) 60000000
   \<and> \<not> is_cache_valid overlapping_agent (60000000 + 30 * 60000000 + 1) 60000000
   \<and> \<not> is_cache_valid overlapping_agent (60000000 + 30 * 60000000) 60000000
   \<and> map_option timestamp (get_last_search_results overlapping_agent 1800000000) = Some 60000000
   \<and> get_last_search_results overlapping_agent 1860000000 = None
   \<and> length (search_cache overlapping_agent) = 2"
proof -
  have p: "(0::int) < 1" and q: "(0::int) \<le> 1" and z: "(0::int) \<le> 0" by simp_all
  have ttl: "cache_ttl_minutes overlapping_agent = 30"
    by (simp add: overlapping_agent_eq)
  have bd: "(1::int) \<le> 30 \<and> (30::int) \<le> 1000000" by simp
  note t = cache_valid_iff_age_below_ttl [of overlapping_agent _ 60000000]
  from t [of 0 1] p bd
  have v1: "is_cache_valid overlapping_agent (60000000 + 30 * 60000000 - 1) 60000000"
    unfolding ttl by blast
  from t [of 0 1] q bd
  have v2: "\<not> is_cache_valid overlapping_agent (60000000 + 30 * 60000000 + 1) 60000000"
    unfolding ttl by blast
  from t [of 0 0] z bd
  have "\<not> is_cache_valid overlapping_agent (60000000 + 30 * 60000000 + 0) 60000000"
    unfolding ttl by blast
  then have v3: "\<not> is_cache_valid overlapping_agent (60000000 + 30 * 60000000) 60000000"
    by simp
  have g1: "map_option timestamp (get_last_search_results overlapping_agent 1800000000) = Some 60000000"
    by (simp add: get_last_search_results_def overlapping_agent_eq is_cache_valid_ttl30 Let_def)
  have g2: "get_last_search_results overlapping_agent 1860000000 = None"
    by (simp add: get_last_search_results_def overlapping_agent_eq is_cache_valid_ttl30 Let_def)
  have l: "length (search_cache overlapping_agent) = 2"
    by (simp add: overlapping_agent_eq)
  from p v1 v2 v3 g1 g2 l show ?thesis by (intro conjI)
qed

text \<open>
  C6, as the code has it. For every list of ids, on a cache whose valid entries
  hold lists of dictionaries, \<^verbatim>\<open>_get_cached_images\<close> returns, entry after
  entry in the order of the cache, the records of each valid entry whose id is
  requested, whichever entry holds them. Nothing is collapsed: a record that
  several valid entries hold is returned once for each.
\<close>

theorem lookup_returns_every_occurrence:
  assumes "list_all entry_well_formed
             (filter (\<lambda>c. is_cache_valid self now (timestamp c)) (map snd (search_cache self)))"
  shows "get_cached_images self now image_ids =
           Inr (concat (map (\<lambda>e. filter (id_requested image_ids) (listed_images e))
                  (filter (\<lambda>c. is_cache_valid self now (timestamp c))
                     (map snd (search_cache self)))))"
  unfolding get_cached_images_def scan_entries_well_formed [OF assms] by simp

text \<open>
  C6 as stated fails: both entries of the example cache are valid at minute 2
  and hold \<^verbatim>\<open>img_001\<close>, and the lookup returns the record twice.
\<close>

theorem lookup_does_not_collapse_duplicates:
  "get_cached_images overlapping_agent 120000000 [''img_001'']
     = Inr [img_001_dict, img_001_dict]"
  by (simp add: get_cached_images_def overlapping_agent_eq is_cache_valid_ttl30 py_iter_def
        img_001_dict_def create_full_image_dict_def img_get_id_def dict_get_def
        SAMPLE_IMAGES_def)

text \<open>The example cache is well formed, and a record that it lacks is not found.\<close>

theorem lookup_returns_every_occurrence_witness:
  "list_all entry_well_formed
     (filter (\<lambda>c. is_cache_valid overlapping_agent 120000000 (timestamp c))
        (map snd (search_cache overlapping_agent)))
   \<and> get_cached_images overlapping_agent 120000000 [''img_001'']
       = Inr (concat (map (\<lambda>e. filter (id_requested [''img_001'']) (listed_images e))
                (filter (\<lambda>c. is_cache_valid overlapping_agent 120000000 (timestamp c))
                   (map snd (search_cache overlapping_agent)))))
   \<and> get_cached_images overlapping_agent 120000000 [''img_002''] = Inr []"
proof -
  have d: "is_dict img_001_dict"
    by (simp add: is_dict_def img_001_dict_def create_full_image_dict_def)
  have wf: "list_all entry_well_formed
     (filter (\<lambda>c. is_cache_valid overlapping_agent 120000000 (timestamp c))
        (map snd (search_cache overlapping_agent)))"
    by (simp add: overlapping_agent_eq is_cache_valid_ttl30 entry_well_formed_def d)
  have n: "\<not> id_requested [''img_002''] img_001_dict"
    by (simp add: id_requested_def img_001_dict_def create_full_image_dict_def dict_get_def
          SAMPLE_IMAGES_def)
  have "get_cached_images overlapping_agent 120000000 [''img_002''] = Inr []"
    unfolding lookup_returns_every_occurrence [OF wf]
    by (simp add: overlapping_agent_eq is_cache_valid_ttl30 listed_images_def n)
  with wf lookup_returns_every_occurrence [OF wf, of "[''img_001'']"] show ?thesis
    by (intro conjI)
qed

end
